theory Spec2Isabelle
  imports Complex_Main "HOL-Library.AList" "HOL-Library.Monad_Syntax" "HOL-Library.Sublist"
begin

section \<open>Data model (src/types/index.ts)\<close>

text \<open>
  A \<open>CSVRecord\<close> is a JavaScript object whose values are strings or numbers. It is
  kept as an association list in the order \<open>Object.entries\<close> enumerates it. Numbers
  are the finite values the decoder produces, taken as rationals: rounding of the double
  arithmetic is not part of the model, and neither are \<open>NaN\<close> and the infinities as
  field values.

  Clock readings and the durations of \<open>ProcessingOptions\<close> are integers
  (milliseconds); \<open>batchSize\<close> is an integer.
\<close>

datatype jsval = Num rat | Str string

type_synonym CSVRecord = "(string \<times> jsval) list"

record ProcessingOptions =
  batchSize :: int
  windowSize :: int
  slidingInterval :: int

text \<open>
  \<open>Date.now()\<close>: the \<open>n\<close>-th reading a component takes is \<open>clk n\<close>; a component
  counts its readings in its state.
\<close>

type_synonym clock = "nat \<Rightarrow> int"

section \<open>StreamProcessor (src/processors/StreamProcessor.ts)\<close>

text \<open>
  The fields of the class that the batching path reads or writes. \<open>emitted\<close> is the
  downstream side of the transform stream: for every flush cycle that removed a non-empty
  batch, the records that cycle handed to \<open>this.push\<close>, in push order. \<open>reads\<close>
  counts the clock readings taken so far.
\<close>

record StreamProcessor =
  buffer :: "CSVRecord list"
  options :: ProcessingOptions
  processing :: bool
  highWaterMark :: nat
  reads :: nat
  emitted :: "CSVRecord list list"

definition StreamProcessor_new :: "ProcessingOptions \<Rightarrow> StreamProcessor" where
  "StreamProcessor_new opts =
     \<lparr>buffer = [], options = opts, processing = False, highWaterMark = 1000,
      reads = 0, emitted = []\<rparr>"

text \<open>\<open>{...record, timestamp: t}\<close>: an existing key keeps its place, a new one goes last.\<close>

definition stamp :: "CSVRecord \<Rightarrow> int \<Rightarrow> CSVRecord" where
  "stamp record t = AList.update ''timestamp'' (Num (of_int t)) record"

text \<open>
  \<open>processChunk\<close> has no \<open>await\<close>: it runs to its end when called, stamping and
  pushing its records one after the other. The result is the list of records pushed.
\<close>

fun processChunk :: "clock \<Rightarrow> nat \<Rightarrow> CSVRecord list \<Rightarrow> CSVRecord list" where
  "processChunk clk n [] = []"
| "processChunk clk n (r # rs) = stamp r (clk n) # processChunk clk (Suc n) rs"

text \<open>\<open>chunks.map(chunk => this.processChunk(chunk))\<close>, chunk after chunk.\<close>

fun processChunks :: "clock \<Rightarrow> nat \<Rightarrow> CSVRecord list list \<Rightarrow> CSVRecord list list" where
  "processChunks clk n [] = []"
| "processChunks clk n (c # cs) = processChunk clk n c # processChunks clk (n + length c) cs"

definition slice :: "'a list \<Rightarrow> nat \<Rightarrow> nat \<Rightarrow> 'a list" where
  "slice array i j = take (j - i) (drop i array)"

text \<open>
  The loop of \<open>chunkArray\<close>: \<open>for (let i = 0; i < array.length; i += size)\<close>. With
  \<open>size = 0\<close> and a non-empty array it never ends, which is the value \<open>None\<close>.
\<close>

partial_function (option) chunkArray_loop ::
  "'a list \<Rightarrow> nat \<Rightarrow> nat \<Rightarrow> 'a list list \<Rightarrow> 'a list list option" where
  "chunkArray_loop array sz i chunks =
     (if i < length array
      then chunkArray_loop array sz (i + sz) (chunks @ [slice array i (i + sz)])
      else Some chunks)"

declare chunkArray_loop.simps [code]

definition chunkArray :: "'a list \<Rightarrow> nat \<Rightarrow> 'a list list option" where
  "chunkArray array sz = chunkArray_loop array sz 0 []"

text \<open>
  \<open>buffer.splice(0, batchSize)\<close> removes \<open>min (max batchSize 0) (length buffer)\<close>
  records from the front. \<open>Math.ceil(n / 4)\<close> of a length \<open>n\<close> is \<open>(n + 3) div 4\<close>.
\<close>

definition splice_batch :: "StreamProcessor \<Rightarrow> CSVRecord list" where
  "splice_batch s = take (nat (batchSize (options s))) (buffer s)"

definition splice_rest :: "StreamProcessor \<Rightarrow> CSVRecord list" where
  "splice_rest s = drop (nat (batchSize (options s))) (buffer s)"

definition processBatch_chunks :: "CSVRecord list \<Rightarrow> CSVRecord list list option" where
  "processBatch_chunks batch = chunkArray batch ((length batch + 3) div 4)"

text \<open>
  \<open>processBatch\<close> from \<open>this.processing = true\<close> to its \<open>await\<close>: the batch is
  spliced off, chunked, and every chunk is stamped and pushed.
\<close>

definition processBatch_start :: "clock \<Rightarrow> StreamProcessor \<Rightarrow> StreamProcessor option" where
  "processBatch_start clk s =
     (let batch = splice_batch s;
          s1 = s\<lparr>processing := True, buffer := splice_rest s\<rparr>
      in if length batch > 0
         then do {
           chunks \<leftarrow> processBatch_chunks batch;
           Some (s1\<lparr>reads := reads s1 + length (concat chunks),
                     emitted := emitted s1 @ [concat (processChunks clk (reads s1) chunks)]\<rparr>)
         }
         else Some s1)"

text \<open>The \<open>finally\<close> block after the \<open>await\<close>, before it calls the callback.\<close>

definition processBatch_finish :: "StreamProcessor \<Rightarrow> StreamProcessor" where
  "processBatch_finish s = s\<lparr>processing := False\<rparr>"

text \<open>One call of \<open>processBatch\<close>, up to the moment its callback is called.\<close>

definition processBatch :: "clock \<Rightarrow> StreamProcessor \<Rightarrow> StreamProcessor option" where
  "processBatch clk s =
     (if processing s then Some s
      else map_option processBatch_finish (processBatch_start clk s))"

definition threshold_reached :: "StreamProcessor \<Rightarrow> bool" where
  "threshold_reached s \<longleftrightarrow>
     int (length (buffer s)) \<ge> batchSize (options s) \<or> length (buffer s) \<ge> highWaterMark s"

text \<open>\<open>_transform\<close>, up to the moment its callback is called.\<close>

definition push_chunk :: "CSVRecord \<Rightarrow> StreamProcessor \<Rightarrow> StreamProcessor" where
  "push_chunk chunk s = s\<lparr>buffer := buffer s @ [chunk]\<rparr>"

definition transform :: "clock \<Rightarrow> CSVRecord \<Rightarrow> StreamProcessor \<Rightarrow> StreamProcessor option" where
  "transform clk chunk s =
     (let s1 = push_chunk chunk s
      in if threshold_reached s1 then processBatch clk s1 else Some s1)"

text \<open>
  \<open>_flush\<close>: the callback it gives to \<open>processBatch\<close> calls \<open>_flush\<close> again while
  the buffer is not empty. \<open>None\<close> is a recursion that never reaches the final callback.
\<close>

partial_function (option) flush :: "clock \<Rightarrow> StreamProcessor \<Rightarrow> StreamProcessor option" where
  "flush clk s =
     (if length (buffer s) > 0
      then Option.bind (processBatch clk s)
             (\<lambda>s'. if length (buffer s') > 0 then flush clk s' else Some s')
      else Some s)"

declare flush.simps [code]

definition cleanup_processor :: "StreamProcessor \<Rightarrow> StreamProcessor" where
  "cleanup_processor s = s\<lparr>buffer := []\<rparr>"

text \<open>
  A whole source through the stream: the transport hands \<open>_transform\<close> one record at a
  time, the next one after the callback of the one before, and calls \<open>_flush\<close> at the
  end of the input.
\<close>

fun transform_all :: "clock \<Rightarrow> CSVRecord list \<Rightarrow> StreamProcessor \<Rightarrow> StreamProcessor option" where
  "transform_all clk [] s = Some s"
| "transform_all clk (r # rs) s = Option.bind (transform clk r s) (transform_all clk rs)"

definition pipe_through :: "clock \<Rightarrow> CSVRecord list \<Rightarrow> StreamProcessor \<Rightarrow> StreamProcessor option" where
  "pipe_through clk rs s = Option.bind (transform_all clk rs s) (flush clk)"

text \<open>Five buffered records and \<open>batchSize = 5\<close>.\<close>

definition five_records :: "CSVRecord list" where
  "five_records =
     [[(''id'', Num 1)], [(''id'', Num 2)], [(''id'', Num 3)], [(''id'', Num 4)], [(''id'', Num 5)]]"

definition five_buffered :: StreamProcessor where
  "five_buffered =
     (StreamProcessor_new \<lparr>batchSize = 5, windowSize = 1000, slidingInterval = 500\<rparr>)
       \<lparr>buffer := five_records\<rparr>"

text \<open>Three records for a processor with \<open>batchSize = 2\<close>.\<close>

definition two_opts :: ProcessingOptions where
  "two_opts = \<lparr>batchSize = 2, windowSize = 1000, slidingInterval = 500\<rparr>"

definition three_records :: "CSVRecord list" where
  "three_records =
     [[(''id'', Num 1), (''value'', Str ''a'')], [(''id'', Num 2), (''value'', Str ''b'')],
      [(''id'', Num 3), (''value'', Str ''c'')]]"

definition ms_clock :: clock where
  "ms_clock n = 1000 + int n"

text \<open>
  What holds of the processor between two calls of the transport, after the records
  \<open>rs\<close> have been written: it is idle, and the records not yet emitted are the buffer.
\<close>

definition accounted :: "clock \<Rightarrow> ProcessingOptions \<Rightarrow> CSVRecord list \<Rightarrow> StreamProcessor \<Rightarrow> bool" where
  "accounted clk opts rs s \<longleftrightarrow>
     \<not> processing s \<and> options s = opts \<and> highWaterMark s = 1000
     \<and> reads s + length (buffer s) = length rs
     \<and> rs = take (reads s) rs @ buffer s
     \<and> concat (emitted s) = processChunk clk 0 (take (reads s) rs)
     \<and> list_all (\<lambda>e. int (length e) \<le> batchSize opts) (emitted s)"


section \<open>The processor inside its stream\<close>

text \<open>
  \<open>StreamProcessor\<close> extends the \<open>Transform\<close> stream of the runtime, which calls
  \<open>_transform\<close> and \<open>_flush\<close>: a record written to the stream waits in the stream's
  own queue while an earlier \<open>_transform\<close> has not called its callback, and \<open>_flush\<close>
  is called once, when the input has ended and the queue is empty. The state below adds
  that queue and the callback a \<open>processBatch\<close> in flight still has to call.
  \<open>begun\<close> is an observation, not a field of the code: the buffer length at every
  moment a flush cycle began (\<open>processBatch\<close> passed its re-entrancy guard).
\<close>

datatype continuation = TransformCallback | FlushCallback

record transport =
  proc :: StreamProcessor
  queue :: "CSVRecord list"
  awaiting :: "continuation option"
  flushed :: bool
  finished :: bool
  begun :: "nat list"

definition transport_new :: "ProcessingOptions \<Rightarrow> transport" where
  "transport_new opts =
     \<lparr>proc = StreamProcessor_new opts, queue = [], awaiting = None, flushed = False,
      finished = False, begun = []\<rparr>"

text \<open>
  \<open>processBatch(callback)\<close> up to its first return. Behind the guard the callback is
  called at once: the callback of \<open>_transform\<close> returns; the one of \<open>_flush\<close>, called
  with the buffer still non-empty, calls \<open>_flush\<close> again and never returns (\<open>None\<close>).
\<close>

definition call_processBatch :: "clock \<Rightarrow> continuation \<Rightarrow> transport \<Rightarrow> transport option" where
  "call_processBatch clk k t =
     (if processing (proc t)
      then (case k of TransformCallback \<Rightarrow> Some t | FlushCallback \<Rightarrow> None)
      else map_option
             (\<lambda>p. t\<lparr>proc := p, awaiting := Some k,
                      begun := begun t @ [length (buffer (proc t))]\<rparr>)
             (processBatch_start clk (proc t)))"

definition call_flush :: "clock \<Rightarrow> transport \<Rightarrow> transport option" where
  "call_flush clk t =
     (if length (buffer (proc t)) > 0 then call_processBatch clk FlushCallback t
      else Some (t\<lparr>finished := True\<rparr>))"

text \<open>
  The steps of the stream: a producer writes a record; the stream hands the next queued
  record to \<open>_transform\<close>; the \<open>processBatch\<close> in flight resumes after its \<open>await\<close>
  and calls its callback; the stream calls \<open>_flush\<close>; somebody calls \<open>cleanup()\<close>.
  \<open>None\<close> is a step that cannot happen in that state, or one that does not return.
\<close>

datatype event = Write CSVRecord | Deliver | Resume | Final | Cleanup

fun fire :: "clock \<Rightarrow> event \<Rightarrow> transport \<Rightarrow> transport option" where
  "fire clk (Write r) t =
     (if flushed t then None else Some (t\<lparr>queue := queue t @ [r]\<rparr>))"
| "fire clk Deliver t =
     (case queue t of
        [] \<Rightarrow> None
      | chunk # rest \<Rightarrow>
          if awaiting t \<noteq> None then None
          else let t1 = t\<lparr>proc := push_chunk chunk (proc t), queue := rest\<rparr>
               in if threshold_reached (proc t1)
                  then call_processBatch clk TransformCallback t1
                  else Some t1)"
| "fire clk Resume t =
     (case awaiting t of
        None \<Rightarrow> None
      | Some k \<Rightarrow>
          let t1 = t\<lparr>proc := processBatch_finish (proc t), awaiting := None\<rparr>
          in (case k of TransformCallback \<Rightarrow> Some t1 | FlushCallback \<Rightarrow> call_flush clk t1))"
| "fire clk Final t =
     (if flushed t \<or> awaiting t \<noteq> None \<or> queue t \<noteq> [] then None
      else call_flush clk (t\<lparr>flushed := True\<rparr>))"
| "fire clk Cleanup t = Some (t\<lparr>proc := cleanup_processor (proc t)\<rparr>)"

fun fire_all :: "clock \<Rightarrow> event list \<Rightarrow> transport \<Rightarrow> transport option" where
  "fire_all clk [] t = Some t"
| "fire_all clk (e # es) t = Option.bind (fire clk e t) (fire_all clk es)"

inductive reachable :: "clock \<Rightarrow> ProcessingOptions \<Rightarrow> transport \<Rightarrow> bool"
  for clk :: clock and opts :: ProcessingOptions where
  init: "reachable clk opts (transport_new opts)"
| step: "reachable clk opts t \<Longrightarrow> fire clk e t = Some t' \<Longrightarrow> reachable clk opts t'"

definition transport_inv :: "ProcessingOptions \<Rightarrow> transport \<Rightarrow> bool" where
  "transport_inv opts t \<longleftrightarrow>
     options (proc t) = opts \<and> highWaterMark (proc t) = 1000
     \<and> (processing (proc t) \<longleftrightarrow> awaiting t \<noteq> None)
     \<and> int (length (buffer (proc t))) < batchSize opts
     \<and> length (buffer (proc t)) < 1000
     \<and> list_all (\<lambda>n. int n \<le> batchSize opts) (begun t)"

text \<open>
  Writes that arrive while a flush cycle is in flight, with \<open>batchSize = 2\<close>.
\<close>

definition busy_events :: "event list" where
  "busy_events =
     [Write [(''id'', Num 1)], Write [(''id'', Num 2)], Deliver, Deliver,
      Write [(''id'', Num 3)], Write [(''id'', Num 4)], Write [(''id'', Num 5)],
      Resume, Deliver, Deliver, Resume, Deliver, Final, Resume]"

section \<open>Grouped statistics (WindowAggregator.calculateAggregations)\<close>

text \<open>
  Two conversions of the JavaScript runtime that the aggregation code calls: the string a
  template literal makes of a number, and \<open>Number\<close> applied to a string, where \<open>None\<close>
  stands for \<open>NaN\<close>. The functions below take them as a parameter.
\<close>

record runtime =
  number_to_string :: "rat \<Rightarrow> string"
  string_to_number :: "string \<Rightarrow> rat option"

datatype error = TypeError

type_synonym stats = "(string \<times> rat) list"

fun join :: "string \<Rightarrow> string list \<Rightarrow> string" where
  "join sep [] = []"
| "join sep [x] = x"
| "join sep (x # y # ys) = x @ sep @ join sep (y # ys)"

definition value_to_string :: "runtime \<Rightarrow> jsval \<Rightarrow> string" where
  "value_to_string rt v = (case v of Num x \<Rightarrow> number_to_string rt x | Str s \<Rightarrow> s)"

definition getGroupKey :: "runtime \<Rightarrow> CSVRecord \<Rightarrow> string" where
  "getGroupKey rt record =
     join ''|''
       (map (\<lambda>(key, v). key @ '':'' @ value_to_string rt v)
          (filter (\<lambda>(key, v). key \<noteq> ''timestamp'') record))"

text \<open>\<open>typeof value === 'number'\<close>\<close>

fun is_number :: "jsval \<Rightarrow> bool" where
  "is_number (Num x) = True"
| "is_number (Str s) = False"

definition getNumericFields :: "CSVRecord \<Rightarrow> string list" where
  "getNumericFields record =
     map fst (filter (\<lambda>(key, v). key \<noteq> ''timestamp'' \<and> is_number v) record)"

text \<open>
  \<open>Number(r[field])\<close>: a number is itself, a string is converted, a missing field is
  \<open>undefined\<close> and gives \<open>NaN\<close>.
\<close>

fun toNumber :: "runtime \<Rightarrow> jsval option \<Rightarrow> rat option" where
  "toNumber rt None = None"
| "toNumber rt (Some (Num x)) = Some x"
| "toNumber rt (Some (Str s)) = string_to_number rt s"

text \<open>\<open>records.map(r => Number(r[field])).filter(v => !isNaN(v))\<close>\<close>

definition numeric_values :: "runtime \<Rightarrow> string \<Rightarrow> CSVRecord list \<Rightarrow> rat list" where
  "numeric_values rt field records =
     List.map_filter (\<lambda>r. toNumber rt (map_of r field)) records"

text \<open>
  The body of \<open>numericFields.forEach\<close>. An assignment \<open>result[key] = v\<close> replaces the
  value of a key the object has and adds a new key last.
\<close>

definition set_stats :: "string \<Rightarrow> rat list \<Rightarrow> stats \<Rightarrow> stats" where
  "set_stats field values result =
     (case values of
        [] \<Rightarrow> result
      | v # vs \<Rightarrow>
          let sum = foldl (+) 0 values;
              r1 = AList.update (field @ ''_sum'') sum result;
              r2 = AList.update (field @ ''_avg'') (sum / of_nat (length values)) r1;
              r3 = AList.update (field @ ''_max'') (foldl max v vs) r2
          in AList.update (field @ ''_min'') (foldl min v vs) r3)"

text \<open>\<open>records[0]\<close> of an empty array is \<open>undefined\<close>, and \<open>Object.entries\<close> throws.\<close>

definition calculateGroupAggregations :: "runtime \<Rightarrow> CSVRecord list \<Rightarrow> error + stats" where
  "calculateGroupAggregations rt records =
     (case records of
        [] \<Rightarrow> Inl TypeError
      | first # _ \<Rightarrow>
          Inr (foldl (\<lambda>result field. set_stats field (numeric_values rt field records) result)
                 [(''count'', of_nat (length records))]
                 (getNumericFields first)))"

text \<open>The \<open>groups\<close> map of \<open>calculateAggregations\<close>, in insertion order.\<close>

definition add_to_group ::
  "runtime \<Rightarrow> (string \<times> CSVRecord list) list \<Rightarrow> CSVRecord \<Rightarrow> (string \<times> CSVRecord list) list" where
  "add_to_group rt groups record =
     (let key = getGroupKey rt record;
          groups1 = (if map_of groups key = None then AList.update key [] groups else groups)
      in AList.map_entry key (\<lambda>g. g @ [record]) groups1)"

definition group_records :: "runtime \<Rightarrow> CSVRecord list \<Rightarrow> (string \<times> CSVRecord list) list" where
  "group_records rt records = foldl (add_to_group rt) [] records"

fun aggregate_groups ::
  "runtime \<Rightarrow> (string \<times> CSVRecord list) list \<Rightarrow> (string \<times> stats) list \<Rightarrow> error + (string \<times> stats) list" where
  "aggregate_groups rt [] results = Inr results"
| "aggregate_groups rt ((key, groupRecords) # groups) results =
     (case calculateGroupAggregations rt groupRecords of
        Inl e \<Rightarrow> Inl e
      | Inr agg \<Rightarrow> aggregate_groups rt groups (AList.update key agg results))"

definition calculateAggregations :: "runtime \<Rightarrow> CSVRecord list \<Rightarrow> error + (string \<times> stats) list" where
  "calculateAggregations rt records = aggregate_groups rt (group_records rt records) []"

text \<open>
  The numeric occurrences of a field in a group, as C2 words them: the values of the
  records that hold a number under that field.
\<close>

definition numeric_occurrences :: "string \<Rightarrow> CSVRecord list \<Rightarrow> rat list" where
  "numeric_occurrences field records =
     List.map_filter (\<lambda>r. case map_of r field of Some (Num x) \<Rightarrow> Some x | _ \<Rightarrow> None) records"

text \<open>
  A runtime for whole numbers, to evaluate examples: the decimal digits of an integer and
  their value, as JavaScript has them; the empty string converts to \<open>0\<close>. What this
  runtime makes of other numbers and strings is not JavaScript's, and no example uses it.
\<close>

definition digit_char :: "nat \<Rightarrow> char" where
  "digit_char d = ''0123456789'' ! d"

function digits_of :: "nat \<Rightarrow> string" where
  "digits_of n = (if n < 10 then [digit_char n] else digits_of (n div 10) @ [digit_char (n mod 10)])"
  by pat_completeness auto
termination
  by (relation "measure id") auto

definition integer_to_string :: "rat \<Rightarrow> string" where
  "integer_to_string x =
     (if x < 0 then ''-'' @ digits_of (nat (\<lfloor>- x\<rfloor>)) else digits_of (nat \<lfloor>x\<rfloor>))"

definition is_digit :: "char \<Rightarrow> bool" where
  "is_digit c \<longleftrightarrow> c \<in> set ''0123456789''"

text \<open>The value of a digit is its place in the string of the ten digits.\<close>

definition digit_value :: "char \<Rightarrow> nat" where
  "digit_value c = length (takeWhile (\<lambda>d. d \<noteq> c) ''0123456789'')"

definition digits_value :: "string \<Rightarrow> nat" where
  "digits_value s = foldl (\<lambda>n c. 10 * n + digit_value c) 0 s"

definition integer_of_string :: "string \<Rightarrow> rat option" where
  "integer_of_string s =
     (case s of
        [] \<Rightarrow> Some 0
      | c # cs \<Rightarrow>
          if c = CHR ''-'' \<and> cs \<noteq> [] \<and> list_all is_digit cs then Some (- of_nat (digits_value cs))
          else if list_all is_digit s then Some (of_nat (digits_value s))
          else None)"

definition integer_runtime :: runtime where
  "integer_runtime = \<lparr>number_to_string = integer_to_string, string_to_number = integer_of_string\<rparr>"

text \<open>
  Two records with the same group key: one holds the number \<open>1\<close> under \<open>a\<close>, the other
  the string \<open>"1"\<close>.
\<close>

definition mixed_group :: "CSVRecord list" where
  "mixed_group = [[(''a'', Num 1)], [(''a'', Str ''1'')]]"

text \<open>The records of scenario 3 of the specification.\<close>

definition category_records :: "CSVRecord list" where
  "category_records =
     [[(''category'', Str ''A''), (''value'', Num 10)],
      [(''category'', Str ''A''), (''value'', Num 20)],
      [(''category'', Str ''B''), (''value'', Num 30)]]"

section \<open>WindowAggregator (src/aggregators/WindowAggregator.ts)\<close>

record Window =
  startTime :: int
  records :: "CSVRecord list"

record AggregationResult =
  timestamp :: int
  count :: nat
  data :: "(string \<times> stats) list"

text \<open>
  \<open>Math.ceil(windowSize / slidingInterval) + 1\<close> of two integers is an integer when
  \<open>slidingInterval\<close> is not \<open>0\<close>, and an infinity or \<open>NaN\<close> when it is.
\<close>

datatype jsnum = Finite int | PosInf | NegInf | NaN

definition maxWindows_of :: "int \<Rightarrow> int \<Rightarrow> jsnum" where
  "maxWindows_of ws si =
     (if si \<noteq> 0 then Finite (- ((- ws) div si) + 1)
      else if 0 < ws then PosInf else if ws < 0 then NegInf else NaN)"

text \<open>
  The \<open>windows\<close> map holds references to \<open>Window\<close> objects, which \<open>addToWindow\<close>
  changes in place and which a pass of \<open>processWindows\<close> keeps hold of across its
  \<open>await\<close>s. So the map is a list of keys and references in insertion order, and
  \<open>heap\<close> is the store of the objects, a reference being an index into it.
  \<open>config\<close> holds the read-only copies \<open>windowSize\<close> and \<open>slidingInterval\<close>;
  \<open>processingW\<close> is the field \<open>processing\<close>; \<open>pending\<close> is what is left of
  \<open>windowsToProcess\<close> in the pass in flight; \<open>subscribed\<close> says that the handler of the
  engine listens to the event \<open>aggregation\<close>.
\<close>

record WindowAggregator =
  windows :: "(int \<times> nat) list"
  heap :: "Window list"
  config :: ProcessingOptions
  lastCleanup :: int
  timer :: bool
  processingW :: bool
  maxWindows :: jsnum
  pending :: "(int \<times> nat) list"
  subscribed :: bool

definition WindowAggregator_new :: "int \<Rightarrow> ProcessingOptions \<Rightarrow> WindowAggregator" where
  "WindowAggregator_new now opts =
     \<lparr>windows = [], heap = [], config = opts, lastCleanup = now, timer = True,
      processingW = False,
      maxWindows = maxWindows_of (windowSize opts) (slidingInterval opts),
      pending = [], subscribed = False\<rparr>"

text \<open>The window object under a key, if the map has the key.\<close>

definition window_at :: "WindowAggregator \<Rightarrow> int \<Rightarrow> Window option" where
  "window_at s k = map_option (\<lambda>a. heap s ! a) (map_of (windows s) k)"

definition addToWindow :: "int \<Rightarrow> CSVRecord \<Rightarrow> WindowAggregator \<Rightarrow> WindowAggregator" where
  "addToWindow windowTime record s =
     (let (a, s1) =
            (case map_of (windows s) windowTime of
               Some a \<Rightarrow> (a, s)
             | None \<Rightarrow>
                 (length (heap s),
                  s\<lparr>heap := heap s @ [\<lparr>startTime = windowTime, records = []\<rparr>],
                    windows := AList.update windowTime (length (heap s)) (windows s)\<rparr>))
      in s1\<lparr>heap := (heap s1)[a := (heap s1 ! a)\<lparr>records := records (heap s1 ! a) @ [record]\<rparr>]\<rparr>)"

text \<open>
  One round of the loop of \<open>addRecord\<close>. \<open>Math.floor(now / slidingInterval)\<close> is
  \<open>now div slidingInterval\<close>; with \<open>slidingInterval = 0\<close> the window time is \<open>NaN\<close>
  and the comparison is false.
\<close>

definition windowStart_of :: "int \<Rightarrow> WindowAggregator \<Rightarrow> int" where
  "windowStart_of now s = (now div slidingInterval (config s)) * slidingInterval (config s)"

definition addRecord_round :: "int \<Rightarrow> CSVRecord \<Rightarrow> WindowAggregator \<Rightarrow> nat \<Rightarrow> WindowAggregator" where
  "addRecord_round now record s i =
     (if slidingInterval (config s) = 0 then s
      else let windowTime = windowStart_of now s - int i * slidingInterval (config s)
           in if now - windowTime \<le> windowSize (config s)
              then addToWindow windowTime record s
              else s)"

text \<open>
  The loop \<open>for (let i = 0; i < this.maxWindows; i++)\<close>: it never ends when
  \<open>maxWindows\<close> is \<open>Infinity\<close>, and has no round when it is \<open>-Infinity\<close> or \<open>NaN\<close>.
\<close>

definition fan_out :: "int \<Rightarrow> CSVRecord \<Rightarrow> WindowAggregator \<Rightarrow> WindowAggregator option" where
  "fan_out now record s =
     (case maxWindows s of
        Finite m \<Rightarrow> Some (foldl (addRecord_round now record) s [0..<nat m])
      | PosInf \<Rightarrow> None
      | NegInf \<Rightarrow> Some s
      | NaN \<Rightarrow> Some s)"

text \<open>
  \<open>cleanupWindows\<close>; \<open>now\<close> is its own clock reading. Deleting the entry at hand while
  iterating a \<open>Map\<close> keeps the iteration going over the entries that remain.
\<close>

definition cleanupWindows :: "int \<Rightarrow> WindowAggregator \<Rightarrow> WindowAggregator" where
  "cleanupWindows now s =
     (let cutoff = now - windowSize (config s)
      in s\<lparr>windows := filter (\<lambda>(startTime, a). \<not> startTime < cutoff) (windows s),
           lastCleanup := now\<rparr>)"

text \<open>\<open>addRecord\<close> reads the clock at its start, and again in \<open>cleanupWindows\<close>.\<close>

definition addRecord :: "int \<Rightarrow> int \<Rightarrow> CSVRecord \<Rightarrow> WindowAggregator \<Rightarrow> WindowAggregator option" where
  "addRecord now now' record s =
     Option.bind (fan_out now record s)
       (\<lambda>s1. Some (if now - lastCleanup s1 > windowSize (config s1)
                     then cleanupWindows now' s1 else s1))"

text \<open>
  \<open>processWindow\<close>: \<open>Inr None\<close> is the early return for a window without records,
  \<open>Inl\<close> an error thrown again after logging.
\<close>

definition processWindow :: "runtime \<Rightarrow> int \<Rightarrow> Window \<Rightarrow> error + AggregationResult option" where
  "processWindow rt t window =
     (if length (records window) = 0 then Inr None
      else (case calculateAggregations rt (records window) of
              Inl e \<Rightarrow> Inl e
            | Inr aggregations \<Rightarrow>
                Inr (Some \<lparr>timestamp = t, count = length (records window),
                           data = aggregations\<rparr>)))"

text \<open>
  \<open>Array.from(this.windows.entries()).filter(...).sort(([a], [b]) => b - a)\<close>: the
  sort is stable and descending in the start time.
\<close>

definition windowsToProcess :: "int \<Rightarrow> WindowAggregator \<Rightarrow> (int \<times> nat) list" where
  "windowsToProcess now s =
     sort_key (\<lambda>(t, a). - t)
       (filter (\<lambda>(t, a). now - t \<ge> slidingInterval (config s)) (windows s))"

text \<open>
  A pass of \<open>processWindows\<close> runs from one \<open>await\<close> to the next: it processes the next
  window of its list, or, the list being empty, leaves through \<open>finally\<close>. The second
  component is what the step emits; an error of \<open>processWindow\<close> is caught and logged.
\<close>

definition process_next :: "runtime \<Rightarrow> WindowAggregator \<Rightarrow> WindowAggregator \<times> AggregationResult list" where
  "process_next rt s =
     (case pending s of
        [] \<Rightarrow> (s\<lparr>processingW := False\<rparr>, [])
      | (t, a) # rest \<Rightarrow>
          (s\<lparr>pending := rest\<rparr>,
           (case processWindow rt t (heap s ! a) of Inr (Some r) \<Rightarrow> [r] | _ \<Rightarrow> [])))"

definition processWindows :: "runtime \<Rightarrow> int \<Rightarrow> WindowAggregator \<Rightarrow> WindowAggregator \<times> AggregationResult list" where
  "processWindows rt now s =
     (if processingW s then (s, [])
      else process_next rt (s\<lparr>processingW := True, pending := windowsToProcess now s\<rparr>))"

definition stop :: "WindowAggregator \<Rightarrow> WindowAggregator" where
  "stop s = s\<lparr>timer := False, windows := [], subscribed := False\<rparr>"

text \<open>
  The steps of an aggregator: a record is added, the interval timer fires, the pass in
  flight resumes after an \<open>await\<close>, the aggregator is stopped. \<open>None\<close> is a step that
  cannot happen in that state, or one that does not return.
\<close>

datatype agg_event = AddRecord int int CSVRecord | TimerFires int | PassResumes | Stop

fun agg_fire ::
  "runtime \<Rightarrow> agg_event \<Rightarrow> WindowAggregator \<Rightarrow> (WindowAggregator \<times> AggregationResult list) option" where
  "agg_fire rt (AddRecord now now' record) s =
     map_option (\<lambda>s'. (s', [])) (addRecord now now' record s)"
| "agg_fire rt (TimerFires now) s =
     (if timer s then Some (processWindows rt now s) else None)"
| "agg_fire rt PassResumes s =
     (if processingW s then Some (process_next rt s) else None)"
| "agg_fire rt Stop s = Some (stop s, [])"

fun agg_run ::
  "runtime \<Rightarrow> agg_event list \<Rightarrow> WindowAggregator \<Rightarrow> (WindowAggregator \<times> AggregationResult list) option" where
  "agg_run rt [] s = Some (s, [])"
| "agg_run rt (e # es) s =
     (case agg_fire rt e s of
        None \<Rightarrow> None
      | Some (s1, out1) \<Rightarrow> map_option (\<lambda>(s2, out2). (s2, out1 @ out2)) (agg_run rt es s1))"

inductive agg_reachable :: "runtime \<Rightarrow> int \<Rightarrow> ProcessingOptions \<Rightarrow> WindowAggregator \<Rightarrow> bool"
  for rt :: runtime and now0 :: int and opts :: ProcessingOptions where
  agg_init: "agg_reachable rt now0 opts (WindowAggregator_new now0 opts)"
| agg_step: "agg_reachable rt now0 opts s \<Longrightarrow> agg_fire rt e s = Some (s', out)
             \<Longrightarrow> agg_reachable rt now0 opts s'"

text \<open>
  What holds of the map and the store in every state: the keys are distinct, so are the
  references, each reference of the map or of a pass in flight is an object of the store,
  the object under a key has that key as its start time, and no object is without records.
\<close>

definition agg_inv :: "WindowAggregator \<Rightarrow> bool" where
  "agg_inv s \<longleftrightarrow>
     distinct (map fst (windows s)) \<and> distinct (map snd (windows s))
     \<and> list_all (\<lambda>(t, a). a < length (heap s) \<and> startTime (heap s ! a) = t) (windows s)
     \<and> list_all (\<lambda>(t, a). a < length (heap s) \<and> startTime (heap s ! a) = t) (pending s)
     \<and> list_all (\<lambda>w. records w \<noteq> []) (heap s)"

definition not_before :: "int \<Rightarrow> agg_event \<Rightarrow> bool" where
  "not_before now e = (case e of AddRecord t t' r \<Rightarrow> now \<le> t | _ \<Rightarrow> True)"

text \<open>The options of the tests: windows of one second that slide by half a second.\<close>

definition test_opts :: ProcessingOptions where
  "test_opts = \<lparr>batchSize = 10, windowSize = 1000, slidingInterval = 500\<rparr>"

definition one_record :: CSVRecord where
  "one_record = [(''id'', Num 1), (''value'', Num 10)]"

text \<open>The start times and records of the windows of the map, in insertion order.\<close>

definition window_list :: "WindowAggregator \<Rightarrow> (int \<times> CSVRecord list) list" where
  "window_list s = map (\<lambda>(t, a). (t, records (heap s ! a))) (windows s)"

text \<open>The window under a key after one more record.\<close>

definition appended :: "WindowAggregator \<Rightarrow> int \<Rightarrow> CSVRecord \<Rightarrow> Window" where
  "appended s k r =
     \<lparr>startTime = k,
      records = (case window_at s k of None \<Rightarrow> [] | Some w \<Rightarrow> records w) @ [r]\<rparr>"


text \<open>The window times that pass the test of the loop, in loop order.\<close>

definition accepted_times :: "int \<Rightarrow> WindowAggregator \<Rightarrow> nat list \<Rightarrow> int list" where
  "accepted_times now s is =
     filter (\<lambda>k. now - k \<le> windowSize (config s))
       (map (\<lambda>i. windowStart_of now s - int i * slidingInterval (config s)) is)"


text \<open>No key of the map is below \<open>c\<close>.\<close>

definition keys_from :: "int \<Rightarrow> WindowAggregator \<Rightarrow> bool" where
  "keys_from c s \<longleftrightarrow> list_all (\<lambda>(t, a). c \<le> t) (windows s)"


text \<open>
  The three windows that a first record, added at 1700000000000, leaves in a new
  aggregator, and calls that come 600 ms later and after.
\<close>

definition three_windows :: WindowAggregator where
  "three_windows =
     \<lparr>windows = [(1700000000000, 0), (1699999999500, 1), (1699999999000, 2)],
      heap = [\<lparr>startTime = 1700000000000, records = [one_record]\<rparr>,
              \<lparr>startTime = 1699999999500, records = [one_record]\<rparr>,
              \<lparr>startTime = 1699999999000, records = [one_record]\<rparr>],
      config = test_opts, lastCleanup = 1699999999990, timer = True, processingW = False,
      maxWindows = Finite 3, pending = [], subscribed = False\<rparr>"

definition later_events :: "agg_event list" where
  "later_events =
     [AddRecord 1700000000600 1700000000600 one_record,
      AddRecord 1700000000700 1700000000701 one_record,
      TimerFires 1700000001000, PassResumes]"

section \<open>DataEngine\<close>

text \<open>
  \<open>results\<close> is an array that \<open>handleAggregationResult\<close> pushes to in place and
  that \<open>getResults\<close> copies into a new array for the caller, so arrays live in a store
  and are known by reference, an index into \<open>arrays\<close>. What an array holds are not
  the results but references to them: \<open>push(result)\<close> stores the object the aggregator
  emitted and \<open>[...this.results]\<close> copies the references, so the result objects live in
  a store of their own, \<open>objects\<close>, and an entry of an array is an index into it. An
  object of that store stands for a result with all that hangs from it (\<open>data\<close> and the
  statistics below it); nothing of the repository keeps a reference to a part of it.

  \<open>handed_out\<close> and \<open>held\<close> are observations: the references of the snapshot arrays
  given to callers so far, and the references of the result objects that callers hold,
  because a snapshot had them or because the caller made them. \<open>adds\<close> counts the calls
  of \<open>addRecord\<close> made for records of sources; the clock readings of the \<open>n\<close>-th such
  call, at its start and in its eviction pass, are \<open>aclk n\<close>.
\<close>

record DataEngine =
  processor :: StreamProcessor
  aggregator :: WindowAggregator
  results :: nat
  arrays :: "nat list list"
  objects :: "AggregationResult list"
  handed_out :: "nat list"
  held :: "nat list"
  adds :: nat

type_synonym add_clock = "nat \<Rightarrow> int \<times> int"

text \<open>
  The constructor makes the two components, subscribes \<open>handleAggregationResult\<close> and
  starts with an empty results array. It checks nothing, and no statement of it throws.
\<close>

definition DataEngine_init :: "int \<Rightarrow> ProcessingOptions \<Rightarrow> DataEngine" where
  "DataEngine_init now opts =
     \<lparr>processor = StreamProcessor_new opts,
      aggregator = (WindowAggregator_new now opts)\<lparr>subscribed := True\<rparr>,
      results = 0, arrays = [[]], objects = [], handed_out = [], held = [], adds = 0\<rparr>"

definition DataEngine_new :: "int \<Rightarrow> ProcessingOptions \<Rightarrow> error + DataEngine" where
  "DataEngine_new now opts = Inr (DataEngine_init now opts)"



text \<open>
  The handler receives the object that \<open>processWindow\<close> has just made, a new object of
  the store, and pushes the reference to it.
\<close>

definition handleAggregationResult :: "DataEngine \<Rightarrow> AggregationResult \<Rightarrow> DataEngine" where
  "handleAggregationResult e result =
     e\<lparr>objects := objects e @ [result],
       arrays := (arrays e)[results e := arrays e ! results e @ [length (objects e)]]\<rparr>"



text \<open>\<open>cleanup\<close>: \<open>this.results = []\<close> makes the field refer to a new, empty array.\<close>

definition cleanup :: "DataEngine \<Rightarrow> DataEngine" where
  "cleanup e =
     e\<lparr>processor := cleanup_processor (processor e), aggregator := stop (aggregator e),
       results := length (arrays e), arrays := arrays e @ [[]]\<rparr>"

text \<open>
  A source as \<open>processFile\<close> sees it: whether a statement of the \<open>try\<close> block that
  sets up the streams throws (\<open>createReadStream\<close> does for a path it refuses), and
  behind the decoder the chunks the parser emits, then the end of the input or an error.
  \<open>Invalid\<close> is a chunk that the validation step rejects
  (\<open>!chunk || typeof chunk !== 'object'\<close>).
\<close>

datatype chunk = Record CSVRecord | Invalid

datatype source_end = EndOfInput | DecodeError

record source =
  setup_throws :: bool
  chunks :: "chunk list"
  ending :: source_end

datatype outcome = Resolved | Rejected

text \<open>
  The listener of \<open>data\<close>: every record the processor pushes goes to \<open>addRecord\<close>.
  The processor and the aggregator share no state, so the records a call of the processor
  pushes are forwarded here after that call, in push order.
\<close>

fun forward :: "add_clock \<Rightarrow> CSVRecord list \<Rightarrow> DataEngine \<Rightarrow> DataEngine option" where
  "forward aclk [] e = Some e"
| "forward aclk (r # rs) e =
     Option.bind (addRecord (fst (aclk (adds e))) (snd (aclk (adds e))) r (aggregator e))
       (\<lambda>a. forward aclk rs (e\<lparr>aggregator := a, adds := Suc (adds e)\<rparr>))"

text \<open>The records pushed between two states of the processor.\<close>

definition pushed_since :: "StreamProcessor \<Rightarrow> StreamProcessor \<Rightarrow> CSVRecord list" where
  "pushed_since p p' = concat (drop (length (emitted p)) (emitted p'))"

text \<open>
  The closure \<open>cleanup\<close> of \<open>processFile\<close> destroys the streams of the source and
  calls \<open>processor.cleanup()\<close>; the aggregator and the results are not touched.
\<close>

definition teardown :: "DataEngine \<Rightarrow> DataEngine" where
  "teardown e = e\<lparr>processor := cleanup_processor (processor e)\<rparr>"

definition on_record :: "clock \<Rightarrow> add_clock \<Rightarrow> CSVRecord \<Rightarrow> DataEngine \<Rightarrow> DataEngine option" where
  "on_record clk aclk r e =
     Option.bind (transform clk r (processor e))
       (\<lambda>p. forward aclk (pushed_since (processor e) p) (e\<lparr>processor := p\<rparr>))"

definition on_end :: "clock \<Rightarrow> add_clock \<Rightarrow> DataEngine \<Rightarrow> DataEngine option" where
  "on_end clk aclk e =
     Option.bind (flush clk (processor e))
       (\<lambda>p. forward aclk (pushed_since (processor e) p) (e\<lparr>processor := p\<rparr>))"

text \<open>
  \<open>processFile\<close>: the promise resolves when the stream ends and is rejected at the
  first error of the parser, of the validation step or of the stream, whose listeners call
  the closure \<open>cleanup\<close>. When setting up the streams throws, the \<open>catch\<close> branch
  calls \<open>this.cleanup()\<close>, the \<open>cleanup\<close> of the engine, and rejects. Nothing else
  settles the promise.
\<close>

fun run_source ::
  "clock \<Rightarrow> add_clock \<Rightarrow> chunk list \<Rightarrow> source_end \<Rightarrow> DataEngine \<Rightarrow> (outcome \<times> DataEngine) option" where
  "run_source clk aclk [] EndOfInput e = map_option (Pair Resolved) (on_end clk aclk e)"
| "run_source clk aclk [] DecodeError e = Some (Rejected, teardown e)"
| "run_source clk aclk (Invalid # cs) fin e = Some (Rejected, teardown e)"
| "run_source clk aclk (Record r # cs) fin e =
     Option.bind (on_record clk aclk r e) (run_source clk aclk cs fin)"

definition processFile ::
  "clock \<Rightarrow> add_clock \<Rightarrow> source \<Rightarrow> DataEngine \<Rightarrow> (outcome \<times> DataEngine) option" where
  "processFile clk aclk src e =
     (if setup_throws src then Some (Rejected, cleanup e)
      else run_source clk aclk (chunks src) (ending src) e)"






text \<open>Options that the data model calls invalid, and a source without a record.\<close>

definition invalid_opts :: ProcessingOptions where
  "invalid_opts = \<lparr>batchSize = 0, windowSize = - 1000, slidingInterval = 0\<rparr>"

definition empty_source :: source where
  "empty_source = \<lparr>setup_throws = False, chunks = [], ending = EndOfInput\<rparr>"







section \<open>Chunking\<close>

lemma ceil_div_step:
  assumes "0 < (sz::nat)" and "0 < m"
  shows "(m + sz - 1) div sz = Suc ((m - sz + sz - 1) div sz)"
proof (cases "sz \<le> m")
  case True
  then have e1: "m + sz - 1 = (m - 1) + sz" and e2: "m - sz + sz - 1 = m - 1"
    using assms by arith+
  have "(m - 1 + sz) div sz = Suc ((m - 1) div sz)"
    by (metis assms(1) div_add_self2 Suc_eq_plus1 less_numeral_extra(3))
  then show ?thesis by (simp only: e1 e2)
next
  case False
  then have "m - sz + sz - 1 < sz" using assms by arith
  then have z: "(m - sz + sz - 1) div sz = 0" by simp
  have "sz * 1 \<le> m + sz - 1" "m + sz - 1 < sz * Suc 1"
    using False assms by simp_all
  then have "(m + sz - 1) div sz = 1"
    by (rule div_nat_eqI)
  then show ?thesis using z by simp
qed

lemma chunkArray_loop_total:
  assumes "0 < sz"
  shows "\<exists>cs. chunkArray_loop array sz i acc = Some (acc @ cs)
            \<and> concat cs = drop i array
            \<and> (\<forall>c \<in> set cs. c \<noteq> [] \<and> length c \<le> sz)
            \<and> (\<forall>c \<in> set (butlast cs). length c = sz)
            \<and> length cs = (length array - i + sz - 1) div sz"
proof (induction "length array - i" arbitrary: i acc rule: less_induct)
  case less
  show ?case
  proof (cases "i < length array")
    case False
    then show ?thesis using assms
      by (subst chunkArray_loop.simps) simp
  next
    case True
    let ?c = "slice array i (i + sz)"
    have "length array - (i + sz) < length array - i" using True assms by arith
    from less[OF this, of "acc @ [?c]"]
    obtain cs where cs: "chunkArray_loop array sz (i + sz) (acc @ [?c]) = Some ((acc @ [?c]) @ cs)"
      "concat cs = drop (i + sz) array"
      "\<forall>c \<in> set cs. c \<noteq> [] \<and> length c \<le> sz"
      "\<forall>c \<in> set (butlast cs). length c = sz"
      "length cs = (length array - (i + sz) + sz - 1) div sz"
      by blast
    have c_ne: "?c \<noteq> []" using True assms by (simp add: slice_def)
    have c_le: "length ?c \<le> sz" by (simp add: slice_def)
    have c_full: "length ?c = sz" if "cs \<noteq> []"
    proof -
      from that cs(2) cs(3) have "drop (i + sz) array \<noteq> []"
        by (metis concat_eq_Nil_conv last_in_set)
      then have "i + sz < length array" by simp
      then show ?thesis by (simp add: slice_def)
    qed
    have cat: "concat (?c # cs) = drop i array"
    proof -
      have "drop (i + sz) array = drop sz (drop i array)" by (simp add: add.commute)
      with cs(2) show ?thesis by (simp add: slice_def del: drop_drop)
    qed
    have len: "length (?c # cs) = (length array - i + sz - 1) div sz"
      using ceil_div_step[OF assms, of "length array - i"] True cs(5) by simp
    have bl: "\<forall>c \<in> set (butlast (?c # cs)). length c = sz"
      using cs(4) c_full by auto
    show ?thesis
      apply (subst chunkArray_loop.simps)
      apply (rule exI[of _ "?c # cs"])
      using True cs(1) cs(3) c_ne c_le cat len bl by simp
  qed
qed

lemma chunkArray_total:
  assumes "0 < sz"
  shows "\<exists>cs. chunkArray array sz = Some cs
            \<and> concat cs = array
            \<and> (\<forall>c \<in> set cs. c \<noteq> [] \<and> length c \<le> sz)
            \<and> (\<forall>c \<in> set (butlast cs). length c = sz)
            \<and> length cs = (length array + sz - 1) div sz"
  using chunkArray_loop_total[OF assms, of array 0 "[]"] by (simp add: chunkArray_def)

lemma processChunk_length: "length (processChunk clk n rs) = length rs"
  by (induction rs arbitrary: n) simp_all

lemma processChunk_append:
  "processChunk clk n (xs @ ys) = processChunk clk n xs @ processChunk clk (n + length xs) ys"
  by (induction xs arbitrary: n) simp_all

lemma processChunks_concat:
  "concat (processChunks clk n cs) = processChunk clk n (concat cs)"
  by (induction cs arbitrary: n) (simp_all add: processChunk_append)

lemma processChunk_nth:
  "k < length rs \<Longrightarrow> processChunk clk n rs ! k = stamp (rs ! k) (clk (n + k))"
proof (induction rs arbitrary: n k)
  case Nil
  then show ?case by simp
next
  case (Cons r rs)
  then show ?case by (cases k) simp_all
qed

lemma chunk_count_le4:
  assumes "0 < (n::nat)"
  shows "(n + (n + 3) div 4 - 1) div ((n + 3) div 4) \<le> 4"
proof -
  let ?sz = "(n + 3) div 4"
  have sz: "0 < ?sz" using assms by simp
  have "n \<le> 4 * ?sz" by simp
  then have "n + ?sz - 1 < 5 * ?sz" using sz by simp
  then have "(n + ?sz - 1) div ?sz < 5"
    using sz by (simp add: less_mult_imp_div_less)
  then show ?thesis by simp
qed

lemma processBatch_chunks_total:
  assumes "batch \<noteq> []"
  shows "\<exists>cs. processBatch_chunks batch = Some cs
            \<and> concat cs = batch
            \<and> cs \<noteq> [] \<and> length cs \<le> 4
            \<and> length cs = (length batch + (length batch + 3) div 4 - 1) div ((length batch + 3) div 4)
            \<and> (\<forall>c \<in> set (butlast cs). length c = (length batch + 3) div 4)
            \<and> last cs \<noteq> [] \<and> length (last cs) \<le> (length batch + 3) div 4"
proof -
  let ?sz = "(length batch + 3) div 4"
  have n: "0 < length batch" using assms by simp
  then have sz: "0 < ?sz" by arith
  from chunkArray_total[OF sz, of batch]
  obtain cs where cs: "chunkArray batch ?sz = Some cs" "concat cs = batch"
    "\<forall>c \<in> set cs. c \<noteq> [] \<and> length c \<le> ?sz"
    "\<forall>c \<in> set (butlast cs). length c = ?sz"
    "length cs = (length batch + ?sz - 1) div ?sz"
    by blast
  have ne: "cs \<noteq> []" using cs(2) assms by auto
  then have last: "last cs \<noteq> [] \<and> length (last cs) \<le> ?sz"
    using cs(3) by simp
  have le4: "length cs \<le> 4" using chunk_count_le4[OF n] cs(5) by simp
  have chunks: "processBatch_chunks batch = Some cs"
    using cs(1) by (simp add: processBatch_chunks_def)
  from chunks cs(2) ne le4 cs(5) cs(4) last show ?thesis by blast
qed

lemma processBatch_start_eq:
  "processBatch_start clk s =
     Some (s\<lparr>processing := True, buffer := splice_rest s,
             reads := reads s + length (splice_batch s),
             emitted := emitted s @
               (if splice_batch s = [] then [] else [processChunk clk (reads s) (splice_batch s)])\<rparr>)"
proof (cases "splice_batch s = []")
  case True
  then show ?thesis by (simp add: processBatch_start_def)
next
  case False
  from processBatch_chunks_total[OF False]
  obtain cs where "processBatch_chunks (splice_batch s) = Some cs" "concat cs = splice_batch s"
    by blast
  then show ?thesis using False
    by (simp add: processBatch_start_def processChunks_concat Let_def)
qed

section \<open>One flush cycle\<close>

lemma processBatch_idle:
  assumes "\<not> processing s"
  shows "processBatch clk s =
     Some (s\<lparr>processing := False, buffer := splice_rest s,
             reads := reads s + length (splice_batch s),
             emitted := emitted s @
               (if splice_batch s = [] then [] else [processChunk clk (reads s) (splice_batch s)])\<rparr>)"
  using assms by (simp add: processBatch_def processBatch_start_eq processBatch_finish_def)

lemma map_of_stamp:
  "map_of (stamp r t) field =
     (if field = ''timestamp'' then Some (Num (of_int t)) else map_of r field)"
  by (simp add: stamp_def update_conv')

text \<open>
  C4, as the code has it. A flush cycle removes the first \<open>min batchSize (length buffer)\<close>
  records from the buffer. A non-empty batch of \<open>n\<close> records is cut into consecutive
  sub-chunks of \<open>ceil (n / 4)\<close> records, the last one holding what remains: at least
  one and at most four sub-chunks, \<open>ceil (n / ceil (n / 4))\<close> of them, which is fewer than
  four for some \<open>n\<close>. The sub-chunks concatenated are the batch. The sub-chunks are
  processed one after the other, and the records the cycle has processed when it ends are
  those of the batch, in buffer order, each with the clock reading taken for it under
  \<open>timestamp\<close> and with its other fields as they were.
\<close>

theorem processBatch_partition:
  assumes "\<not> processing s" and "splice_batch s \<noteq> []"
  shows "\<exists>chunks s'.
           processBatch_chunks (splice_batch s) = Some chunks
         \<and> processBatch clk s = Some s'
         \<and> splice_batch s = take (nat (batchSize (options s))) (buffer s)
         \<and> buffer s' = drop (nat (batchSize (options s))) (buffer s)
         \<and> concat chunks = splice_batch s
         \<and> 1 \<le> length chunks \<and> length chunks \<le> 4
         \<and> length chunks =
             (length (splice_batch s) + (length (splice_batch s) + 3) div 4 - 1)
               div ((length (splice_batch s) + 3) div 4)
         \<and> (\<forall>c \<in> set (butlast chunks). length c = (length (splice_batch s) + 3) div 4)
         \<and> last chunks \<noteq> [] \<and> length (last chunks) \<le> (length (splice_batch s) + 3) div 4
         \<and> (\<exists>stamped.
                emitted s' = emitted s @ [stamped]
              \<and> stamped = concat (processChunks clk (reads s) chunks)
              \<and> length stamped = length (splice_batch s)
              \<and> (\<forall>k < length (splice_batch s).
                     map_of (stamped ! k) ''timestamp'' = Some (Num (of_int (clk (reads s + k))))
                   \<and> (\<forall>field. field \<noteq> ''timestamp'' \<longrightarrow>
                          map_of (stamped ! k) field = map_of (splice_batch s ! k) field)))"
proof -
  let ?batch = "splice_batch s"
  from processBatch_chunks_total[OF assms(2)]
  obtain cs where cs: "processBatch_chunks ?batch = Some cs" "concat cs = ?batch"
    "cs \<noteq> []" "length cs \<le> 4"
    "length cs = (length ?batch + (length ?batch + 3) div 4 - 1) div ((length ?batch + 3) div 4)"
    "\<forall>c \<in> set (butlast cs). length c = (length ?batch + 3) div 4"
    "last cs \<noteq> [] \<and> length (last cs) \<le> (length ?batch + 3) div 4"
    by blast
  have ge1: "1 \<le> length cs" using cs(3) by (cases cs) simp_all
  let ?stamped = "processChunk clk (reads s) ?batch"
  let ?s' = "s\<lparr>processing := False, buffer := splice_rest s,
               reads := reads s + length ?batch,
               emitted := emitted s @ [?stamped]\<rparr>"
  have run: "processBatch clk s = Some ?s'"
    using assms by (simp add: processBatch_idle)
  have b1: "?batch = take (nat (batchSize (options s))) (buffer s)"
    by (simp add: splice_batch_def)
  have b2: "buffer ?s' = drop (nat (batchSize (options s))) (buffer s)"
    by (simp add: splice_rest_def)
  have em: "emitted ?s' = emitted s @ [?stamped]" by simp
  have by_chunks: "?stamped = concat (processChunks clk (reads s) cs)"
    by (simp add: processChunks_concat cs(2))
  have len: "length ?stamped = length ?batch" by (rule processChunk_length)
  have each: "\<forall>k < length ?batch.
                 map_of (?stamped ! k) ''timestamp'' = Some (Num (of_int (clk (reads s + k))))
               \<and> (\<forall>field. field \<noteq> ''timestamp'' \<longrightarrow>
                      map_of (?stamped ! k) field = map_of (?batch ! k) field)"
    by (simp add: processChunk_nth map_of_stamp)
  have "\<exists>stamped.
                emitted ?s' = emitted s @ [stamped]
              \<and> stamped = concat (processChunks clk (reads s) cs)
              \<and> length stamped = length ?batch
              \<and> (\<forall>k < length ?batch.
                     map_of (stamped ! k) ''timestamp'' = Some (Num (of_int (clk (reads s + k))))
                   \<and> (\<forall>field. field \<noteq> ''timestamp'' \<longrightarrow>
                          map_of (stamped ! k) field = map_of (?batch ! k) field))"
    using em by_chunks len each by (intro exI[of _ ?stamped]) simp
  with cs(1) run b1 b2 cs(2) ge1 cs(4) cs(5) cs(6) cs(7)
  show ?thesis by blast
qed

theorem processBatch_partition_witness:
  "\<not> processing five_buffered \<and> splice_batch five_buffered \<noteq> []
   \<and> (\<exists>chunks s'.
           processBatch_chunks (splice_batch five_buffered) = Some chunks
         \<and> processBatch ms_clock five_buffered = Some s'
         \<and> concat chunks = splice_batch five_buffered
         \<and> 1 \<le> length chunks \<and> length chunks \<le> 4
         \<and> (\<exists>stamped. emitted s' = emitted five_buffered @ [stamped]
                \<and> length stamped = 5
                \<and> map_of (stamped ! 4) ''timestamp'' = Some (Num 1004)
                \<and> map_of (stamped ! 4) ''id'' = Some (Num 5)))"
proof -
  have h1: "\<not> processing five_buffered"
    by (simp add: five_buffered_def StreamProcessor_new_def)
  have b: "splice_batch five_buffered = five_records"
    by (simp add: splice_batch_def five_buffered_def five_records_def StreamProcessor_new_def)
  have h2: "splice_batch five_buffered \<noteq> []"
    by (simp add: b five_records_def)
  have c: "of_int (ms_clock (reads five_buffered + 4)) = (1004 :: rat)"
    "length five_records = 5" "map_of (five_records ! 4) ''id'' = Some (Num 5)"
    by (simp_all add: ms_clock_def five_buffered_def StreamProcessor_new_def five_records_def)
  from processBatch_partition[OF h1 h2, of ms_clock]
  obtain chunks s' stamped where
    r: "processBatch_chunks (splice_batch five_buffered) = Some chunks"
      "processBatch ms_clock five_buffered = Some s'"
      "concat chunks = splice_batch five_buffered"
      "1 \<le> length chunks" "length chunks \<le> 4"
      "emitted s' = emitted five_buffered @ [stamped]"
      "length stamped = length (splice_batch five_buffered)"
    and k: "\<forall>k < length (splice_batch five_buffered).
              map_of (stamped ! k) ''timestamp'' =
                Some (Num (of_int (ms_clock (reads five_buffered + k))))
            \<and> (\<forall>field. field \<noteq> ''timestamp'' \<longrightarrow>
                   map_of (stamped ! k) field = map_of (splice_batch five_buffered ! k) field)"
    by blast
  have "4 < length (splice_batch five_buffered)" by (simp add: b c(2))
  with k have "map_of (stamped ! 4) ''timestamp'' = Some (Num 1004)"
    "map_of (stamped ! 4) ''id'' = Some (Num 5)"
    by (simp_all add: c b)
  with r have "\<exists>chunks s'.
           processBatch_chunks (splice_batch five_buffered) = Some chunks
         \<and> processBatch ms_clock five_buffered = Some s'
         \<and> concat chunks = splice_batch five_buffered
         \<and> 1 \<le> length chunks \<and> length chunks \<le> 4
         \<and> (\<exists>stamped. emitted s' = emitted five_buffered @ [stamped]
                \<and> length stamped = 5
                \<and> map_of (stamped ! 4) ''timestamp'' = Some (Num 1004)
                \<and> map_of (stamped ! 4) ''id'' = Some (Num 5))"
    by (intro exI[of _ chunks] exI[of _ s'] conjI exI[of _ stamped]) (simp_all add: b c(2))
  with h1 h2 show ?thesis by simp
qed

text \<open>
  C4 as stated fails: a batch of five records is cut into three sub-chunks, of two, two
  and one record.
\<close>

theorem processBatch_chunks_not_four:
  "splice_batch five_buffered = five_records
   \<and> map_option (map length) (processBatch_chunks (splice_batch five_buffered)) = Some [2, 2, 1]"
  by (simp add: processBatch_chunks_def splice_batch_def five_buffered_def five_records_def
      StreamProcessor_new_def chunkArray_def chunkArray_loop.simps slice_def)

section \<open>A whole source through the batcher\<close>

lemma accounted_new: "accounted clk opts [] (StreamProcessor_new opts)"
  by (simp add: accounted_def StreamProcessor_new_def)

lemma accounted_push:
  assumes "accounted clk opts rs s"
  shows "accounted clk opts (rs @ [r]) (s\<lparr>buffer := buffer s @ [r]\<rparr>)"
proof -
  have "reads s \<le> length rs" using assms by (simp add: accounted_def)
  moreover have "rs @ [r] = take (reads s) rs @ buffer s @ [r]"
    using assms by (metis accounted_def append.assoc)
  ultimately show ?thesis using assms by (simp add: accounted_def)
qed

lemma accounted_processBatch:
  assumes "accounted clk opts rs s" and "0 < batchSize opts"
  shows "\<exists>s'. processBatch clk s = Some s' \<and> accounted clk opts rs s'
            \<and> buffer s' = drop (nat (batchSize opts)) (buffer s)"
proof -
  let ?b = "nat (batchSize opts)"
  let ?batch = "splice_batch s"
  let ?s' = "s\<lparr>processing := False, buffer := splice_rest s,
             reads := reads s + length ?batch,
             emitted := emitted s @
               (if ?batch = [] then [] else [processChunk clk (reads s) ?batch])\<rparr>"
  have idle: "\<not> processing s" and opts: "options s = opts" and hwm: "highWaterMark s = 1000"
    and len: "reads s + length (buffer s) = length rs"
    and split: "rs = take (reads s) rs @ buffer s"
    and out: "concat (emitted s) = processChunk clk 0 (take (reads s) rs)"
    and bound: "list_all (\<lambda>e. int (length e) \<le> batchSize opts) (emitted s)"
    using assms(1) by (simp_all add: accounted_def)
  have batch: "?batch = take ?b (buffer s)" and rest: "splice_rest s = drop ?b (buffer s)"
    using opts by (simp_all add: splice_batch_def splice_rest_def)
  have eq: "processBatch clk s = Some ?s'" using idle by (rule processBatch_idle)
  have rl: "reads s \<le> length rs" using len by simp
  have dropr: "drop (reads s) rs = buffer s"
    using split rl by (metis append_eq_conv_conj length_take min.absorb2)
  have tk: "take (reads s + length ?batch) rs = take (reads s) rs @ ?batch"
    by (simp add: take_add dropr batch min_def)
  have len': "reads ?s' + length (buffer ?s') = length rs"
    using len by (simp add: batch rest)
  have split': "rs = take (reads ?s') rs @ buffer ?s'"
  proof -
    have "rs = take (reads s) rs @ (?batch @ splice_rest s)"
      using split by (simp add: batch rest)
    then show ?thesis using tk by simp
  qed
  have out': "concat (emitted ?s') = processChunk clk 0 (take (reads ?s') rs)"
    using out rl by (simp add: tk processChunk_append)
  have "int (length ?batch) \<le> batchSize opts"
    using assms(2) by (simp add: batch)
  then have bound': "list_all (\<lambda>e. int (length e) \<le> batchSize opts) (emitted ?s')"
    using bound by (simp add: processChunk_length)
  have "accounted clk opts rs ?s'"
    unfolding accounted_def using opts hwm len' split' out' bound' by simp
  moreover have "buffer ?s' = drop ?b (buffer s)" by (simp add: rest)
  ultimately show ?thesis using eq by blast
qed

lemma accounted_transform:
  assumes "accounted clk opts rs s" and "0 < batchSize opts"
  shows "\<exists>s'. transform clk r s = Some s' \<and> accounted clk opts (rs @ [r]) s'"
proof -
  let ?s1 = "push_chunk r s"
  have a1: "accounted clk opts (rs @ [r]) ?s1"
    unfolding push_chunk_def using assms(1) by (rule accounted_push)
  show ?thesis
  proof (cases "threshold_reached ?s1")
    case True
    from accounted_processBatch[OF a1 assms(2)] True show ?thesis
      by (auto simp: transform_def Let_def)
  next
    case False
    then show ?thesis using a1 by (simp add: transform_def Let_def)
  qed
qed

lemma accounted_transform_all:
  assumes "accounted clk opts pre s" and "0 < batchSize opts"
  shows "\<exists>s'. transform_all clk rs s = Some s' \<and> accounted clk opts (pre @ rs) s'"
  using assms(1)
proof (induction rs arbitrary: pre s)
  case Nil
  then show ?case by simp
next
  case (Cons r rs)
  from accounted_transform[OF Cons.prems assms(2), of r]
  obtain s1 where s1: "transform clk r s = Some s1" "accounted clk opts (pre @ [r]) s1"
    by blast
  from Cons.IH[OF s1(2)] s1(1) show ?case by simp
qed

lemma accounted_flush:
  assumes "accounted clk opts rs s" and "0 < batchSize opts"
  shows "\<exists>s'. flush clk s = Some s' \<and> accounted clk opts rs s' \<and> buffer s' = []"
  using assms(1)
proof (induction "length (buffer s)" arbitrary: s rule: less_induct)
  case less
  show ?case
  proof (cases "buffer s = []")
    case True
    then show ?thesis using less.prems by (subst flush.simps) simp
  next
    case False
    from accounted_processBatch[OF less.prems assms(2)]
    obtain s1 where s1: "processBatch clk s = Some s1" "accounted clk opts rs s1"
      "buffer s1 = drop (nat (batchSize opts)) (buffer s)"
      by blast
    show ?thesis
    proof (cases "buffer s1 = []")
      case True
      then show ?thesis using False s1 by (subst flush.simps) simp
    next
      case ne: False
      have "length (buffer s1) < length (buffer s)"
        using s1(3) False assms(2) by simp
      from less.hyps[OF this s1(2)]
      obtain s' where "flush clk s1 = Some s'" "accounted clk opts rs s'" "buffer s' = []"
        by blast
      then show ?thesis using False ne s1(1) by (subst flush.simps) simp
    qed
  qed
qed

text \<open>
  The flush needs a positive \<open>batchSize\<close>: with one that is not, \<open>splice\<close> removes
  nothing, and on a buffer that is not empty the recursion of \<open>_flush\<close> does not end.
\<close>

lemma flush_returns_only_if:
  assumes "flush clk s = Some y"
  shows "\<not> (\<not> processing s \<and> batchSize (options s) \<le> 0 \<and> buffer s \<noteq> [])"
  using assms
proof (induction clk s y rule: flush.raw_induct[rotated, consumes 1])
  case (1 flush' clk s y)
  show ?case
  proof
    assume c: "\<not> processing s \<and> batchSize (options s) \<le> 0 \<and> buffer s \<noteq> []"
    let ?s1 = "s\<lparr>processing := False, buffer := splice_rest s,
             reads := reads s + length (splice_batch s),
             emitted := emitted s @
               (if splice_batch s = [] then [] else [processChunk clk (reads s) (splice_batch s)])\<rparr>"
    have p: "processBatch clk s = Some ?s1" using c by (simp add: processBatch_idle)
    have b: "buffer ?s1 = buffer s" using c by (simp add: splice_rest_def)
    have "flush' clk ?s1 = Some y" using 1(2) c p b by simp
    from 1(1)[OF this] show False using c b by simp
  qed
qed

lemma flush_never_ends:
  "\<not> processing s \<Longrightarrow> batchSize (options s) \<le> 0 \<Longrightarrow> buffer s \<noteq> [] \<Longrightarrow> flush clk s = None"
  using flush_returns_only_if[of clk s] by (cases "flush clk s") auto

text \<open>
  C5. With a positive \<open>batchSize\<close>, writing any finite sequence of records to a new
  processor and flushing at the end of the input returns: the flush-until-empty recursion
  ends with an empty buffer. The batches emitted have lengths that sum to the length of
  the input, none is longer than \<open>batchSize\<close>, and together they are the input,
  stamped, in input order.
\<close>

theorem pipe_through_batches:
  assumes "0 < batchSize opts"
  shows "\<exists>s'. pipe_through clk rs (StreamProcessor_new opts) = Some s'
            \<and> buffer s' = []
            \<and> sum_list (map length (emitted s')) = length rs
            \<and> (\<forall>batch \<in> set (emitted s'). int (length batch) \<le> batchSize opts)
            \<and> concat (emitted s') = processChunk clk 0 rs"
proof -
  from accounted_transform_all[OF accounted_new assms, of clk rs]
  obtain s1 where s1: "transform_all clk rs (StreamProcessor_new opts) = Some s1"
    "accounted clk opts rs s1" by auto
  from accounted_flush[OF s1(2) assms]
  obtain s' where s': "flush clk s1 = Some s'" "accounted clk opts rs s'" "buffer s' = []"
    by blast
  have run: "pipe_through clk rs (StreamProcessor_new opts) = Some s'"
    using s1(1) s'(1) by (simp add: pipe_through_def)
  have r: "reads s' = length rs" using s'(2,3) by (simp add: accounted_def)
  have out: "concat (emitted s') = processChunk clk 0 rs"
    using s'(2) r by (simp add: accounted_def)
  have "length (concat (emitted s')) = length rs"
    by (simp add: out processChunk_length)
  then have total: "sum_list (map length (emitted s')) = length rs"
    by (simp add: length_concat)
  have bound: "\<forall>batch \<in> set (emitted s'). int (length batch) \<le> batchSize opts"
    using s'(2) by (simp add: accounted_def list_all_iff)
  from run s'(3) total bound out show ?thesis by blast
qed

theorem pipe_through_batches_witness:
  "0 < batchSize two_opts
   \<and> (\<exists>s'. pipe_through ms_clock three_records (StreamProcessor_new two_opts) = Some s'
            \<and> buffer s' = []
            \<and> sum_list (map length (emitted s')) = 3
            \<and> list_all (\<lambda>batch. int (length batch) \<le> 2) (emitted s'))
   \<and> map_option emitted (pipe_through ms_clock three_records (StreamProcessor_new two_opts)) =
       Some [[[(''id'', Num 1), (''value'', Str ''a''), (''timestamp'', Num 1000)],
              [(''id'', Num 2), (''value'', Str ''b''), (''timestamp'', Num 1001)]],
             [[(''id'', Num 3), (''value'', Str ''c''), (''timestamp'', Num 1002)]]]"
proof -
  have h: "0 < batchSize two_opts" by (simp add: two_opts_def)
  have n: "length three_records = 3" "batchSize two_opts = 2"
    by (simp_all add: three_records_def two_opts_def)
  have run: "map_option emitted (pipe_through ms_clock three_records (StreamProcessor_new two_opts)) =
       Some [[[(''id'', Num 1), (''value'', Str ''a''), (''timestamp'', Num 1000)],
              [(''id'', Num 2), (''value'', Str ''b''), (''timestamp'', Num 1001)]],
             [[(''id'', Num 3), (''value'', Str ''c''), (''timestamp'', Num 1002)]]]"
    by (simp add: pipe_through_def three_records_def two_opts_def StreamProcessor_new_def
        transform_def push_chunk_def threshold_reached_def processBatch_def processBatch_start_eq
        processBatch_finish_def splice_batch_def splice_rest_def flush.simps stamp_def
        ms_clock_def)
  from pipe_through_batches[OF h, of ms_clock three_records] h run show ?thesis
    by (auto simp: n list_all_iff)
qed

section \<open>The buffer when a flush cycle begins\<close>

lemma transport_inv_new: "0 < batchSize opts \<Longrightarrow> transport_inv opts (transport_new opts)"
  by (simp add: transport_inv_def transport_new_def StreamProcessor_new_def)

lemma transport_inv_call_processBatch:
  assumes "options (proc t) = opts" and "highWaterMark (proc t) = 1000"
    and "\<not> processing (proc t)"
    and "int (length (buffer (proc t))) \<le> batchSize opts"
    and "length (buffer (proc t)) \<le> 1000"
    and "list_all (\<lambda>n. int n \<le> batchSize opts) (begun t)"
    and "call_processBatch clk k t = Some t'"
    and "0 < batchSize opts"
  shows "transport_inv opts t'"
proof -
  have "splice_rest (proc t) = []"
    using assms(1,4) by (simp add: splice_rest_def)
  then show ?thesis
    using assms by (auto simp: call_processBatch_def processBatch_start_eq transport_inv_def)
qed

lemma transport_inv_pos: "transport_inv opts t \<Longrightarrow> 0 < batchSize opts"
  by (auto simp: transport_inv_def)

lemma transport_inv_call_flush:
  assumes "transport_inv opts t" and "awaiting t = None" and "call_flush clk t = Some t'"
  shows "transport_inv opts t'"
proof (cases "length (buffer (proc t)) > 0")
  case True
  then have c: "call_processBatch clk FlushCallback t = Some t'"
    using assms(3) by (simp add: call_flush_def)
  show ?thesis
    by (rule transport_inv_call_processBatch[OF _ _ _ _ _ _ c transport_inv_pos[OF assms(1)]])
       (use assms(1,2) in \<open>simp_all add: transport_inv_def\<close>)
next
  case False
  then show ?thesis using assms by (auto simp: call_flush_def transport_inv_def)
qed

lemma transport_inv_fire:
  assumes "transport_inv opts t" and "fire clk e t = Some t'"
  shows "transport_inv opts t'"
proof (cases e)
  case (Write r)
  then show ?thesis using assms by (auto simp: transport_inv_def split: if_splits)
next
  case Deliver
  show ?thesis
  proof (cases "queue t")
    case Nil
    then show ?thesis using assms Deliver by simp
  next
    case (Cons chunk rest)
    let ?t1 = "t\<lparr>proc := push_chunk chunk (proc t), queue := rest\<rparr>"
    have idle: "awaiting t = None" using assms(2) Deliver Cons by (simp split: if_splits)
    show ?thesis
    proof (cases "threshold_reached (proc ?t1)")
      case True
      then have c: "call_processBatch clk TransformCallback ?t1 = Some t'"
        using assms(2) Deliver Cons idle by (simp add: Let_def)
      show ?thesis
        by (rule transport_inv_call_processBatch[OF _ _ _ _ _ _ c transport_inv_pos[OF assms(1)]])
           (use assms(1) idle in \<open>simp_all add: transport_inv_def push_chunk_def\<close>)
    next
      case False
      then have "t' = ?t1" using assms(2) Deliver Cons idle by (simp add: Let_def)
      then show ?thesis using assms(1) False idle
        by (simp add: transport_inv_def push_chunk_def threshold_reached_def)
    qed
  qed
next
  case Resume
  show ?thesis
  proof (cases "awaiting t")
    case None
    then show ?thesis using assms Resume by simp
  next
    case (Some k)
    let ?t1 = "t\<lparr>proc := processBatch_finish (proc t), awaiting := None\<rparr>"
    have inv1: "transport_inv opts ?t1"
      using assms(1) by (simp add: transport_inv_def processBatch_finish_def)
    show ?thesis
    proof (cases k)
      case TransformCallback
      then show ?thesis using assms(2) Resume Some inv1 by (simp add: Let_def)
    next
      case FlushCallback
      then have "call_flush clk ?t1 = Some t'"
        using assms(2) Resume Some by (simp add: Let_def)
      then show ?thesis using inv1 by (auto intro: transport_inv_call_flush)
    qed
  qed
next
  case Final
  let ?t1 = "t\<lparr>flushed := True\<rparr>"
  have c: "call_flush clk ?t1 = Some t'" and idle: "awaiting t = None"
    using assms(2) Final by (simp_all split: if_splits)
  have "transport_inv opts ?t1" using assms(1) by (simp add: transport_inv_def)
  then show ?thesis using c idle by (auto intro: transport_inv_call_flush)
next
  case Cleanup
  then show ?thesis using assms
    by (auto simp: transport_inv_def cleanup_processor_def)
qed

lemma reachable_inv:
  assumes "reachable clk opts t" and "0 < batchSize opts"
  shows "transport_inv opts t"
  using assms(1)
proof (induction rule: reachable.induct)
  case init
  show ?case using assms(2) by (rule transport_inv_new)
next
  case (step t e t')
  then show ?case by (blast intro: transport_inv_fire)
qed

lemma reachable_fire_all:
  "reachable clk opts t \<Longrightarrow> fire_all clk es t = Some t' \<Longrightarrow> reachable clk opts t'"
proof (induction es arbitrary: t)
  case Nil
  then show ?case by simp
next
  case (Cons e es)
  then obtain t1 where "fire clk e t = Some t1" "fire_all clk es t1 = Some t'"
    by (auto simp: bind_eq_Some_conv)
  then show ?case using Cons.IH Cons.prems(1) reachable.step by blast
qed

text \<open>
  Behind its guard \<open>processBatch\<close> only calls the callback, so a call of \<open>_transform\<close>
  made while a flush cycle is in flight would leave its record in the buffer. The stream
  makes no such call: \<open>Deliver\<close> waits for the callback of the cycle.
\<close>

lemma transform_behind_guard:
  "processing s \<Longrightarrow> transform clk r s = Some (push_chunk r s)"
  by (simp add: transform_def Let_def processBatch_def push_chunk_def)

lemma fire_Deliver_waits: "awaiting t \<noteq> None \<Longrightarrow> fire clk Deliver t = None"
  by (cases "queue t") simp_all

text \<open>
  C6. With a positive \<open>batchSize\<close>, in every state the processor reaches inside its
  stream, whatever the order in which records are written, handed over, flush cycles
  resume and the input ends, the buffer held at most \<open>batchSize\<close> records, so never more
  than \<open>batchSize + 1\<close>, at each moment a flush cycle began. Records written while a cycle
  is in flight wait in the stream's queue, not in the buffer.
\<close>

theorem flush_begin_buffer_bound:
  assumes "reachable clk opts t" and "0 < batchSize opts"
  shows "(\<forall>n \<in> set (begun t). int n \<le> batchSize opts + 1)
         \<and> (\<forall>n \<in> set (begun t). int n \<le> batchSize opts)"
  using reachable_inv[OF assms] by (auto simp: transport_inv_def list_all_iff)

theorem flush_begin_buffer_bound_witness:
  "0 < batchSize two_opts
   \<and> (\<exists>t. fire_all ms_clock busy_events (transport_new two_opts) = Some t
          \<and> reachable ms_clock two_opts t
          \<and> begun t = [2, 2, 1]
          \<and> queue t = [] \<and> buffer (proc t) = [] \<and> finished t
          \<and> list_all (\<lambda>n. int n \<le> batchSize two_opts + 1) (begun t))"
proof -
  have h: "0 < batchSize two_opts" by (simp add: two_opts_def)
  obtain t where t: "fire_all ms_clock busy_events (transport_new two_opts) = Some t"
    and obs: "begun t = [2, 2, 1]" "queue t = []" "buffer (proc t) = []" "finished t"
    by (simp add: busy_events_def transport_new_def two_opts_def StreamProcessor_new_def
        push_chunk_def threshold_reached_def call_processBatch_def call_flush_def
        processBatch_start_eq processBatch_finish_def splice_batch_def splice_rest_def)
  have r: "reachable ms_clock two_opts t"
    using reachable.init t by (rule reachable_fire_all)
  from flush_begin_buffer_bound[OF r h] h t r obs show ?thesis
    by (auto simp: list_all_iff)
qed

section \<open>Statistics of one group\<close>

lemma foldl_plus_sum_list: "foldl (+) a xs = a + sum_list (xs :: rat list)"
  by (induction xs arbitrary: a) (simp_all add: add.assoc)

lemma foldl_max_Max: "foldl max v vs = Max (set (v # vs :: rat list))"
proof -
  have "foldl max v vs = fold max vs v"
    by (simp add: foldl_conv_fold max.commute)
  then show ?thesis by (simp only: Max.set_eq_fold)
qed

lemma foldl_min_Min: "foldl min v vs = Min (set (v # vs :: rat list))"
proof -
  have "foldl min v vs = fold min vs v"
    by (simp add: foldl_conv_fold min.commute)
  then show ?thesis by (simp only: Min.set_eq_fold)
qed

lemma count_not_stat_key:
  "''count'' \<noteq> field @ ''_sum''" "''count'' \<noteq> field @ ''_avg''"
  "''count'' \<noteq> field @ ''_max''" "''count'' \<noteq> field @ ''_min''"
  by (auto dest: arg_cong[where f = last])

lemma map_of_set_stats:
  "map_of (set_stats f vs res) k =
     (if vs = [] then map_of res k
      else if k = f @ ''_min'' then Some (Min (set vs))
      else if k = f @ ''_max'' then Some (Max (set vs))
      else if k = f @ ''_avg'' then Some (sum_list vs / of_nat (length vs))
      else if k = f @ ''_sum'' then Some (sum_list vs)
      else map_of res k)"
  by (cases vs)
     (simp_all add: set_stats_def Let_def update_conv' foldl_plus_sum_list foldl_max_Max
        foldl_min_Min del: foldl_Cons)

lemma map_of_fold_stats:
  assumes "length sfx = 4" and "sfx \<in> {''_sum'', ''_avg'', ''_max'', ''_min''}"
  shows "map_of (foldl (\<lambda>result g. set_stats g (V g) result) init fs) (f @ sfx) =
     (if f \<in> set fs \<and> V f \<noteq> []
      then map_of (set_stats f (V f) []) (f @ sfx)
      else map_of init (f @ sfx))"
proof (induction fs rule: rev_induct)
  case Nil
  then show ?case by simp
next
  case (snoc g fs)
  show ?case
  proof (cases "g = f")
    case True
    then show ?thesis using snoc assms by (auto simp: map_of_set_stats)
  next
    case False
    then have "map_of (set_stats g (V g) res) (f @ sfx) = map_of res (f @ sfx)" for res
      using assms by (auto simp: map_of_set_stats)
    then show ?thesis using snoc False by simp
  qed
qed

lemma is_number_iff: "is_number v \<longleftrightarrow> (\<exists>x. v = Num x)"
  by (cases v) simp_all

lemma getNumericFields_iff:
  assumes "distinct (map fst first)"
  shows "f \<in> set (getNumericFields first) \<longleftrightarrow>
         f \<noteq> ''timestamp'' \<and> (\<exists>x. map_of first f = Some (Num x))"
proof -
  have "f \<in> set (getNumericFields first) \<longleftrightarrow>
        (\<exists>v. (f, v) \<in> set first \<and> f \<noteq> ''timestamp'' \<and> is_number v)"
    by (force simp: getNumericFields_def)
  then have "f \<in> set (getNumericFields first) \<longleftrightarrow>
        f \<noteq> ''timestamp'' \<and> (\<exists>x. (f, Num x) \<in> set first)"
    by (auto simp: is_number_iff)
  then show ?thesis using assms by (auto simp: map_of_eq_Some_iff)
qed

lemma numeric_values_first:
  "map_of first f = Some (Num x) \<Longrightarrow> numeric_values rt f (first # rest) \<noteq> []"
  by (simp add: numeric_values_def List.map_filter_simps)

text \<open>
  C2, as the code has it. For a group whose first record has distinct field names, the
  statistics hold \<open>count\<close>, the number of records of the group, and \<open>sum\<close>, \<open>avg\<close>,
  \<open>max\<close> and \<open>min\<close> for exactly the fields, other than \<open>timestamp\<close>, under which the
  first record holds a number. They are computed over the values that \<open>Number\<close> makes
  of the occurrences of the field in the group and that are not \<open>NaN\<close>: a number as it
  is, a string converted to the number it denotes, while a missing field and a string that
  denotes no number are skipped. \<open>avg\<close> is \<open>sum\<close> divided by the count of those values.
\<close>

theorem group_statistics:
  assumes "distinct (map fst first)"
  shows "\<exists>result. calculateGroupAggregations rt (first # rest) = Inr result
     \<and> map_of result ''count'' = Some (of_nat (length (first # rest)))
     \<and> (\<forall>field. let vs = numeric_values rt field (first # rest) in
          if field \<noteq> ''timestamp'' \<and> (\<exists>x. map_of first field = Some (Num x))
          then vs \<noteq> []
             \<and> map_of result (field @ ''_sum'') = Some (sum_list vs)
             \<and> map_of result (field @ ''_avg'') = Some (sum_list vs / of_nat (length vs))
             \<and> map_of result (field @ ''_max'') = Some (Max (set vs))
             \<and> map_of result (field @ ''_min'') = Some (Min (set vs))
          else map_of result (field @ ''_sum'') = None
             \<and> map_of result (field @ ''_avg'') = None
             \<and> map_of result (field @ ''_max'') = None
             \<and> map_of result (field @ ''_min'') = None)
     \<and> (\<forall>field records. numeric_values rt field records =
          List.map_filter
            (\<lambda>r. case map_of r field of
                   None \<Rightarrow> None
                 | Some (Num x) \<Rightarrow> Some x
                 | Some (Str s) \<Rightarrow> string_to_number rt s) records)"
proof -
  let ?records = "first # rest"
  let ?V = "\<lambda>g. numeric_values rt g ?records"
  define n :: rat where "n = of_nat (length ?records)"
  let ?init = "[(''count'', n)] :: stats"
  let ?result = "foldl (\<lambda>result g. set_stats g (?V g) result) ?init (getNumericFields first)"
  have run: "calculateGroupAggregations rt ?records = Inr ?result"
    by (simp add: calculateGroupAggregations_def n_def)
  have keys: "map_of ?result (f @ sfx) =
     (if f \<in> set (getNumericFields first) \<and> ?V f \<noteq> []
      then map_of (set_stats f (?V f) []) (f @ sfx) else None)"
    if "sfx \<in> {''_sum'', ''_avg'', ''_max'', ''_min''}" for f sfx
  proof -
    have "length sfx = 4" using that by auto
    from map_of_fold_stats[OF this that, of ?V ?init "getNumericFields first" f]
    show ?thesis using that count_not_stat_key[of f] by auto
  qed
  have count: "map_of ?result ''count'' = Some n"
  proof -
    have "map_of (foldl (\<lambda>result g. set_stats g (?V g) result) init fs) ''count'' =
          map_of init ''count''" for init fs
      by (induction fs rule: rev_induct)
         (use count_not_stat_key in \<open>auto simp: map_of_set_stats\<close>)
    then show ?thesis by simp
  qed
  have fields: "let vs = ?V field in
          if field \<noteq> ''timestamp'' \<and> (\<exists>x. map_of first field = Some (Num x))
          then vs \<noteq> []
             \<and> map_of ?result (field @ ''_sum'') = Some (sum_list vs)
             \<and> map_of ?result (field @ ''_avg'') = Some (sum_list vs / of_nat (length vs))
             \<and> map_of ?result (field @ ''_max'') = Some (Max (set vs))
             \<and> map_of ?result (field @ ''_min'') = Some (Min (set vs))
          else map_of ?result (field @ ''_sum'') = None
             \<and> map_of ?result (field @ ''_avg'') = None
             \<and> map_of ?result (field @ ''_max'') = None
             \<and> map_of ?result (field @ ''_min'') = None" for field
  proof (cases "field \<noteq> ''timestamp'' \<and> (\<exists>x. map_of first field = Some (Num x))")
    case True
    then have m: "field \<in> set (getNumericFields first)"
      using getNumericFields_iff[OF assms] by simp
    have ne: "?V field \<noteq> []" using True numeric_values_first by blast
    show ?thesis using True m ne
      by (simp add: keys map_of_set_stats Let_def)
  next
    case False
    then have "field \<notin> set (getNumericFields first)"
      using getNumericFields_iff[OF assms] by simp
    then show ?thesis using False by (simp add: keys Let_def)
  qed
  have vals: "numeric_values rt field records =
          List.map_filter
            (\<lambda>r. case map_of r field of
                   None \<Rightarrow> None
                 | Some (Num x) \<Rightarrow> Some x
                 | Some (Str s) \<Rightarrow> string_to_number rt s) records" for field records
  proof -
    have "toNumber rt v = (case v of None \<Rightarrow> None | Some (Num x) \<Rightarrow> Some x
            | Some (Str s) \<Rightarrow> string_to_number rt s)" for v
      by (cases "(rt, v)" rule: toNumber.cases) simp_all
    then show ?thesis by (simp add: numeric_values_def)
  qed
  from run count fields vals show ?thesis unfolding n_def by blast
qed

theorem group_statistics_witness:
  "distinct (map fst [(''a'', Num 1)])
   \<and> numeric_values integer_runtime ''a'' mixed_group = [1, 1]
   \<and> (\<exists>result. calculateGroupAggregations integer_runtime mixed_group = Inr result
          \<and> map_of result ''count'' = Some 2
          \<and> map_of result ''a_sum'' = Some 2
          \<and> map_of result ''a_avg'' = Some 1
          \<and> map_of result ''a_max'' = Some 1
          \<and> map_of result ''a_min'' = Some 1
          \<and> map_of result ''b_sum'' = None)"
proof -
  have h: "distinct (map fst [(''a'', Num 1 :: jsval)])" by simp
  have v: "numeric_values integer_runtime ''a'' mixed_group = [1, 1]"
    by (simp add: numeric_values_def mixed_group_def List.map_filter_simps integer_runtime_def
        integer_of_string_def is_digit_def digits_value_def digit_value_def)
  from group_statistics[OF h, of integer_runtime "[[(''a'', Str ''1'')]]"]
  obtain result where r: "calculateGroupAggregations integer_runtime mixed_group = Inr result"
    "map_of result ''count'' = Some 2"
    and f: "\<And>field. let vs = numeric_values integer_runtime field mixed_group in
          if field \<noteq> ''timestamp'' \<and> (\<exists>x. map_of [(''a'', Num 1)] field = Some (Num x))
          then vs \<noteq> []
             \<and> map_of result (field @ ''_sum'') = Some (sum_list vs)
             \<and> map_of result (field @ ''_avg'') = Some (sum_list vs / of_nat (length vs))
             \<and> map_of result (field @ ''_max'') = Some (Max (set vs))
             \<and> map_of result (field @ ''_min'') = Some (Min (set vs))
          else map_of result (field @ ''_sum'') = None
             \<and> map_of result (field @ ''_avg'') = None
             \<and> map_of result (field @ ''_max'') = None
             \<and> map_of result (field @ ''_min'') = None"
    unfolding mixed_group_def by auto
  from f[of "''a''"] have a: "map_of result ''a_sum'' = Some 2" "map_of result ''a_avg'' = Some 1"
    "map_of result ''a_max'' = Some 1" "map_of result ''a_min'' = Some 1"
    by (simp_all add: v)
  from f[of "''b''"] have b: "map_of result ''b_sum'' = None"
    by simp
  from h v r a b show ?thesis by blast
qed

text \<open>
  C2 as stated fails. The records \<open>{a: 1}\<close> and \<open>{a: "1"}\<close> have the same group key
  \<open>a:1\<close>. The only numeric occurrence of \<open>a\<close> in the group is \<open>1\<close>, yet the string
  \<open>"1"\<close> is counted as the number \<open>1\<close>: the sum is \<open>2\<close>, over two values.
\<close>

theorem group_statistics_coerce_strings:
  "calculateAggregations integer_runtime mixed_group =
     Inr [(''a:1'', [(''count'', 2), (''a_sum'', 2), (''a_avg'', 1), (''a_max'', 1), (''a_min'', 1)])]
   \<and> numeric_occurrences ''a'' mixed_group = [1]
   \<and> numeric_values integer_runtime ''a'' mixed_group = [1, 1]"
  by (simp add: calculateAggregations_def group_records_def add_to_group_def getGroupKey_def
    mixed_group_def integer_runtime_def value_to_string_def integer_to_string_def
    integer_of_string_def digit_char_def is_digit_def digits_value_def digit_value_def
    calculateGroupAggregations_def getNumericFields_def numeric_values_def set_stats_def
    numeric_occurrences_def List.map_filter_simps)

section \<open>The windows a record is added to\<close>

lemma update_absent: "map_of al k = None \<Longrightarrow> AList.update k v al = al @ [(k, v)]"
  by (induction al) (auto split: if_splits)

lemma addToWindow_absent:
  assumes "map_of (windows s) k = None"
  shows "addToWindow k r s =
     s\<lparr>heap := heap s @ [\<lparr>startTime = k, records = [r]\<rparr>],
       windows := windows s @ [(k, length (heap s))]\<rparr>"
  using assms by (simp add: addToWindow_def update_absent)

lemma addToWindow_present:
  assumes "map_of (windows s) k = Some a"
  shows "addToWindow k r s =
     s\<lparr>heap := (heap s)[a := (heap s ! a)\<lparr>records := records (heap s ! a) @ [r]\<rparr>]\<rparr>"
  using assms by (simp add: addToWindow_def)

lemma addToWindow_config [simp]: "config (addToWindow k r s) = config s"
  by (cases "map_of (windows s) k") (simp_all add: addToWindow_absent addToWindow_present)

lemma agg_inv_refs:
  assumes "agg_inv s" and "map_of (windows s) k = Some a"
  shows "a < length (heap s)" and "startTime (heap s ! a) = k"
proof -
  have "(k, a) \<in> set (windows s)" using assms(2) by (rule map_of_SomeD)
  then show "a < length (heap s)" and "startTime (heap s ! a) = k"
    using assms(1) by (auto simp: agg_inv_def list_all_iff)
qed

lemma agg_inv_refs_inj:
  assumes "agg_inv s" and "map_of (windows s) k = Some a" and "map_of (windows s) k' = Some a"
  shows "k = k'"
proof -
  have "(k, a) \<in> set (windows s)" "(k', a) \<in> set (windows s)"
    using assms(2,3) by (auto dest: map_of_SomeD)
  moreover have "inj_on snd (set (windows s))"
    using assms(1) by (simp add: agg_inv_def distinct_map)
  ultimately have "(k, a) = (k', a)" by (rule inj_onD[rotated 2]) simp
  then show ?thesis by simp
qed

lemma agg_inv_addToWindow:
  assumes "agg_inv s"
  shows "agg_inv (addToWindow k r s)"
proof (cases "map_of (windows s) k")
  case None
  have fresh: "length (heap s) \<notin> snd ` set (windows s)"
    using assms by (auto simp: agg_inv_def list_all_iff)
  have nk: "k \<notin> fst ` set (windows s)"
    using None by (simp add: map_of_eq_None_iff)
  show ?thesis
    unfolding addToWindow_absent[OF None]
    using assms fresh nk
    by (auto simp: agg_inv_def list_all_iff nth_append)
next
  case (Some a)
  have a: "a < length (heap s)" using agg_inv_refs[OF assms Some] by simp
  let ?w = "(heap s ! a)\<lparr>records := records (heap s ! a) @ [r]\<rparr>"
  let ?H = "(heap s)[a := ?w]"
  have st: "startTime (?H ! b) = startTime (heap s ! b)" for b
    using a by (cases "b = a") simp_all
  have ne: "list_all (\<lambda>w. records w \<noteq> []) ?H"
  proof -
    have "set ?H \<subseteq> insert ?w (set (heap s))" by (rule set_update_subset_insert)
    moreover have "\<forall>w \<in> set (heap s). records w \<noteq> []"
      using assms by (simp add: agg_inv_def list_all_iff)
    ultimately show ?thesis by (auto simp: list_all_iff)
  qed
  show ?thesis
    unfolding addToWindow_present[OF Some]
    using assms ne by (simp add: agg_inv_def list_all_iff st)
qed


lemma window_at_addToWindow:
  assumes "agg_inv s"
  shows "window_at (addToWindow k r s) k' =
     (if k' = k then Some (appended s k r) else window_at s k')"
proof (cases "map_of (windows s) k")
  case None
  have other: "(heap s @ [w]) ! a = heap s ! a" if "map_of (windows s) k' = Some a" for a w
    using agg_inv_refs(1)[OF assms that] by (simp add: nth_append)
  show ?thesis
    unfolding addToWindow_absent[OF None]
    using None other
    by (cases "map_of (windows s) k'") (auto simp: window_at_def appended_def map_add_def)
next
  case (Some a)
  have a: "a < length (heap s)" "startTime (heap s ! a) = k"
    using agg_inv_refs[OF assms Some] by simp_all
  have same: "(heap s ! a)\<lparr>records := records (heap s ! a) @ [r]\<rparr> = appended s k r"
    using a(2) Some by (cases "heap s ! a") (simp add: appended_def window_at_def)
  have other: "a' \<noteq> a" if "map_of (windows s) k' = Some a'" "k' \<noteq> k" for a'
    using agg_inv_refs_inj[OF assms Some, of k'] that by auto
  show ?thesis
    unfolding addToWindow_present[OF Some]
    using Some a(1) same other
    by (cases "map_of (windows s) k'") (auto simp: window_at_def)
qed

lemma foldl_addToWindow:
  assumes "agg_inv s" and "distinct ts"
  shows "agg_inv (foldl (\<lambda>s k. addToWindow k r s) s ts)
       \<and> (\<forall>k. window_at (foldl (\<lambda>s k. addToWindow k r s) s ts) k =
              (if k \<in> set ts then Some (appended s k r) else window_at s k))"
  using assms
proof (induction ts arbitrary: s)
  case Nil
  then show ?case by simp
next
  case (Cons t ts)
  let ?s1 = "addToWindow t r s"
  have inv1: "agg_inv ?s1" using Cons.prems(1) by (rule agg_inv_addToWindow)
  have d: "distinct ts" "t \<notin> set ts" using Cons.prems(2) by simp_all
  note at = window_at_addToWindow[OF Cons.prems(1), of t r]
  have app: "appended ?s1 k r = appended s k r" if "k \<noteq> t" for k
    using that by (simp add: appended_def at)
  let ?s' = "foldl (\<lambda>s k. addToWindow k r s) ?s1 ts"
  from Cons.IH[OF inv1 d(1)]
  have inv': "agg_inv ?s'"
    and ih: "\<And>k. window_at ?s' k =
              (if k \<in> set ts then Some (appended ?s1 k r) else window_at ?s1 k)"
    by simp_all
  have "window_at ?s' k =
          (if k \<in> set (t # ts) then Some (appended s k r) else window_at s k)" for k
  proof (cases "k = t")
    case True
    then show ?thesis using d(2) by (simp add: ih at)
  next
    case False
    then show ?thesis by (simp add: ih at app)
  qed
  then show ?case using inv' by simp
qed

lemma config_foldl_round [simp]:
  "config (foldl (addRecord_round now r) s is) = config s"
  by (induction "is" rule: rev_induct) (simp_all add: addRecord_round_def Let_def)

lemma windowStart_foldl_round [simp]:
  "windowStart_of now (foldl (addRecord_round now r) s is) = windowStart_of now s"
  by (simp add: windowStart_of_def)

lemma foldl_round_accepted:
  assumes "slidingInterval (config s) \<noteq> 0"
  shows "foldl (addRecord_round now r) s is =
         foldl (\<lambda>s k. addToWindow k r s) s (accepted_times now s is)"
proof (induction "is" rule: rev_induct)
  case Nil
  then show ?case by (simp add: accepted_times_def)
next
  case (snoc i "is")
  let ?S = "foldl (addRecord_round now r) s is"
  let ?t = "windowStart_of now s - int i * slidingInterval (config s)"
  have "foldl (addRecord_round now r) s (is @ [i]) = addRecord_round now r ?S i" by simp
  also have "\<dots> = (if now - ?t \<le> windowSize (config s) then addToWindow ?t r ?S else ?S)"
    using assms by (simp add: addRecord_round_def Let_def)
  also have "\<dots> = foldl (\<lambda>s k. addToWindow k r s) s (accepted_times now s (is @ [i]))"
    unfolding snoc.IH by (simp add: accepted_times_def)
  finally show ?case .
qed

lemma distinct_accepted_times:
  assumes "slidingInterval (config s) \<noteq> 0" and "distinct is"
  shows "distinct (accepted_times now s is)"
proof -
  have "inj (\<lambda>i. windowStart_of now s - int i * slidingInterval (config s))"
    using assms(1) by (auto simp: inj_on_def)
  then have "distinct (map (\<lambda>i. windowStart_of now s - int i * slidingInterval (config s)) is)"
    using assms(2) by (simp add: distinct_map inj_on_def)
  then show ?thesis by (simp add: accepted_times_def)
qed

lemma floor_multiple_le: "0 < (si::int) \<Longrightarrow> (now div si) * si \<le> now"
  by (metis mult.commute pos_mod_sign mult_div_mod_eq le_add_same_cancel1)

lemma multiple_le_floor:
  assumes "0 < (si::int)" and "j * si \<le> now"
  shows "j \<le> now div si"
proof -
  have "(j * si) div si \<le> now div si" using assms by (intro zdiv_mono1) simp_all
  then show ?thesis using assms(1) by simp
qed

lemma rounds_enough:
  assumes "0 < (si::int)" and "i * si \<le> ws"
  shows "i < - ((- ws) div si) + 1"
proof -
  have 1: "i \<le> ws div si" using assms by (rule multiple_le_floor)
  have "(ws div si) * si \<le> ws" using assms(1) by (rule floor_multiple_le)
  then have "- ws \<le> (- (ws div si)) * si" by simp
  then have "(- ws) div si \<le> ((- (ws div si)) * si) div si"
    using assms(1) by (rule zdiv_mono1)
  moreover have "((- (ws div si)) * si) div si = - (ws div si)"
    using assms(1) nonzero_mult_div_cancel_right[of si "- (ws div si)"] by simp
  ultimately have "(- ws) div si \<le> - (ws div si)" by (simp only:)
  then show ?thesis using 1 by linarith
qed

lemma set_accepted_times:
  assumes "0 < slidingInterval (config s)"
  shows "set (accepted_times now s
                [0..<nat (- ((- windowSize (config s)) div slidingInterval (config s)) + 1)]) =
         {k. slidingInterval (config s) dvd k \<and> 0 \<le> now - k \<and> now - k \<le> windowSize (config s)}"
    (is "?L = ?R")
proof -
  let ?si = "slidingInterval (config s)"
  let ?ws = "windowSize (config s)"
  let ?W = "windowStart_of now s"
  let ?m = "- ((- ?ws) div ?si) + 1"
  have W: "?W = (now div ?si) * ?si" by (simp add: windowStart_of_def)
  have Wle: "?W \<le> now" unfolding W using assms by (rule floor_multiple_le)
  have "k \<in> ?R" if "k \<in> ?L" for k
  proof -
    from that obtain i where i: "k = ?W - int i * ?si" "now - k \<le> ?ws"
      by (auto simp: accepted_times_def)
    have "?si dvd k" unfolding i(1) W by simp
    moreover have "k \<le> ?W" unfolding i(1) using assms by simp
    ultimately show ?thesis using i(2) Wle by simp
  qed
  moreover have "k \<in> ?L" if "k \<in> ?R" for k
  proof -
    from that obtain j where j: "k = j * ?si" and le: "k \<le> now" and ws: "now - k \<le> ?ws"
      by (auto simp: dvd_def mult.commute)
    have "j \<le> now div ?si" using assms le unfolding j by (rule multiple_le_floor)
    then obtain i where i: "now div ?si - j = int i"
      by (metis diff_ge_0_iff_ge nonneg_int_cases)
    have k: "k = ?W - int i * ?si"
      unfolding W j by (simp add: i[symmetric] algebra_simps)
    have "int i * ?si = ?W - k" using k by simp
    also have "\<dots> \<le> ?ws" using Wle ws by simp
    finally have "int i < ?m" using assms by (intro rounds_enough)
    then have "i \<in> set [0..<nat ?m]" by simp
    then show ?thesis using k ws
      unfolding accepted_times_def by (auto simp del: set_upt)
  qed
  ultimately show ?thesis by blast
qed

text \<open>
  C1, as the code has it. With a positive \<open>windowSize\<close> and \<open>slidingInterval\<close>, the
  loop of \<open>addRecord\<close> at time \<open>now\<close> ends, and it appends a copy of the record to
  exactly the windows whose start time \<open>k\<close> is a multiple of \<open>slidingInterval\<close> with
  \<open>now - k\<close> between \<open>0\<close> and \<open>windowSize\<close>, both ends included, creating those that the
  map does not have; every other window is left as it was.
\<close>

theorem fan_out_windows:
  assumes "0 < windowSize (config s)" and "0 < slidingInterval (config s)"
    and "maxWindows s = maxWindows_of (windowSize (config s)) (slidingInterval (config s))"
    and "agg_inv s"
  shows "\<exists>s'. fan_out now record s = Some s'
     \<and> (\<forall>k. window_at s' k =
           (if slidingInterval (config s) dvd k \<and> 0 \<le> now - k \<and> now - k \<le> windowSize (config s)
            then Some \<lparr>startTime = k,
                        records = (case window_at s k of None \<Rightarrow> [] | Some w \<Rightarrow> records w)
                                    @ [record]\<rparr>
            else window_at s k))"
proof -
  let ?si = "slidingInterval (config s)"
  let ?ws = "windowSize (config s)"
  let ?is = "[0..<nat (- ((- ?ws) div ?si) + 1)]"
  let ?ts = "accepted_times now s ?is"
  have si: "?si \<noteq> 0" using assms(2) by simp
  have run: "fan_out now record s = Some (foldl (\<lambda>s k. addToWindow k record s) s ?ts)"
    using assms(3) si by (simp add: fan_out_def maxWindows_of_def foldl_round_accepted)
  have d: "distinct ?ts" using si by (rule distinct_accepted_times) simp
  from foldl_addToWindow[OF assms(4) d, of "record"] set_accepted_times[OF assms(2), of now]
  show ?thesis unfolding run by (simp add: appended_def)
qed

lemma agg_inv_new: "agg_inv (WindowAggregator_new now opts)"
  by (simp add: agg_inv_def WindowAggregator_new_def)

theorem fan_out_windows_witness:
  "0 < windowSize (config (WindowAggregator_new 1699999999990 test_opts))
   \<and> 0 < slidingInterval (config (WindowAggregator_new 1699999999990 test_opts))
   \<and> agg_inv (WindowAggregator_new 1699999999990 test_opts)
   \<and> (\<exists>s'. fan_out 1700000000100 one_record (WindowAggregator_new 1699999999990 test_opts) = Some s'
          \<and> window_at s' 1700000000000 = Some \<lparr>startTime = 1700000000000, records = [one_record]\<rparr>
          \<and> window_at s' 1699999999500 = Some \<lparr>startTime = 1699999999500, records = [one_record]\<rparr>
          \<and> window_at s' 1699999999000 = None
          \<and> window_at s' 1700000000100 = None)"
proof -
  let ?s = "WindowAggregator_new 1699999999990 test_opts"
  have h1: "0 < windowSize (config ?s)" and h2: "0 < slidingInterval (config ?s)"
    and h3: "maxWindows ?s = maxWindows_of (windowSize (config ?s)) (slidingInterval (config ?s))"
    by (simp_all add: WindowAggregator_new_def test_opts_def)
  have h4: "agg_inv ?s" by (rule agg_inv_new)
  have c: "windowSize (config ?s) = 1000" "slidingInterval (config ?s) = 500"
    "window_at ?s k = None" for k
    by (simp_all add: WindowAggregator_new_def test_opts_def window_at_def)
  from fan_out_windows[OF h1 h2 h3 h4, of 1700000000100 one_record]
  obtain s' where s': "fan_out 1700000000100 one_record ?s = Some s'"
    and w: "\<And>k. window_at s' k =
           (if 500 dvd k \<and> 0 \<le> 1700000000100 - k \<and> 1700000000100 - k \<le> 1000
            then Some \<lparr>startTime = k, records = [one_record]\<rparr> else None)"
    unfolding c by auto
  have "window_at s' 1700000000000 = Some \<lparr>startTime = 1700000000000, records = [one_record]\<rparr>"
    "window_at s' 1699999999500 = Some \<lparr>startTime = 1699999999500, records = [one_record]\<rparr>"
    "window_at s' 1699999999000 = None" "window_at s' 1700000000100 = None"
    unfolding w by simp_all
  with h1 h2 h4 s' show ?thesis by blast
qed

text \<open>
  C1 as stated fails at the far end of the range. With windows of 1000 ms sliding by
  500 ms, a record added at a time that is a multiple of 500 also goes to the window that
  started exactly 1000 ms before, which the half-open range leaves out.
\<close>

theorem fan_out_includes_boundary:
  "map_option window_list
     (fan_out 1700000000000 one_record (WindowAggregator_new 1699999999990 test_opts)) =
   Some [(1700000000000, [one_record]), (1699999999500, [one_record]),
         (1699999999000, [one_record])]
   \<and> 1700000000000 - 1699999999000 = windowSize test_opts"
  by (simp add: fan_out_def WindowAggregator_new_def test_opts_def maxWindows_of_def
     upt_conv_Cons addRecord_round_def windowStart_of_def addToWindow_def window_list_def)

section \<open>Eviction\<close>

lemma map_of_filter_key:
  "map_of (filter (\<lambda>(k, v). P k) xs) k = (if P k then map_of xs k else None)"
  by (induction xs) auto

lemma cleanupWindows_keys:
  "map fst (windows (cleanupWindows now s)) =
     filter (\<lambda>k. \<not> k < now - windowSize (config s)) (map fst (windows s))"
  by (simp add: cleanupWindows_def Let_def filter_map comp_def case_prod_unfold)

lemma window_at_cleanupWindows:
  "window_at (cleanupWindows now s) k =
     (if k < now - windowSize (config s) then None else window_at s k)"
  by (simp add: cleanupWindows_def Let_def window_at_def map_of_filter_key)

lemma keys_from_addToWindow:
  "keys_from c s \<Longrightarrow> c \<le> k \<Longrightarrow> keys_from c (addToWindow k r s)"
  by (cases "map_of (windows s) k")
     (simp_all add: addToWindow_absent addToWindow_present keys_from_def)

lemma keys_from_round:
  assumes "keys_from c s" and "c \<le> now - windowSize (config s)"
  shows "keys_from c (addRecord_round now r s i)"
  using assms by (auto simp: addRecord_round_def Let_def intro: keys_from_addToWindow)

lemma keys_from_rounds:
  assumes "keys_from c s" and "c \<le> now - windowSize (config s)"
  shows "keys_from c (foldl (addRecord_round now r) s is)"
  using assms by (induction "is" rule: rev_induct) (simp_all add: keys_from_round)

lemma fan_out_config: "fan_out now r s = Some s1 \<Longrightarrow> config s1 = config s"
  by (auto simp: fan_out_def split: jsnum.splits)

lemma keys_from_fan_out:
  assumes "keys_from c s" and "c \<le> now - windowSize (config s)" and "fan_out now r s = Some s1"
  shows "keys_from c s1"
  using assms by (auto simp: fan_out_def keys_from_rounds split: jsnum.splits)

lemma keys_from_cleanupWindows: "keys_from c s \<Longrightarrow> keys_from c (cleanupWindows t s)"
  by (simp add: keys_from_def cleanupWindows_def Let_def list_all_iff)

lemma keys_from_cleanupWindows_cutoff:
  "keys_from (now - windowSize (config s)) (cleanupWindows now s)"
  by (auto simp: keys_from_def cleanupWindows_def Let_def list_all_iff)

lemma cleanupWindows_config [simp]: "config (cleanupWindows t s) = config s"
  by (simp add: cleanupWindows_def Let_def)

lemma addRecord_config: "addRecord now now' r s = Some s' \<Longrightarrow> config s' = config s"
  by (auto simp: addRecord_def bind_eq_Some_conv dest: fan_out_config split: if_splits)

lemma keys_from_addRecord:
  assumes "keys_from c s" and "c \<le> now - windowSize (config s)"
    and "addRecord now now' r s = Some s'"
  shows "keys_from c s'"
proof -
  from assms(3) obtain s1 where s1: "fan_out now r s = Some s1"
    and s': "s' = (if now - lastCleanup s1 > windowSize (config s1)
                   then cleanupWindows now' s1 else s1)"
    by (auto simp: addRecord_def bind_eq_Some_conv)
  have "keys_from c s1" using assms(1,2) s1 by (rule keys_from_fan_out)
  then show ?thesis unfolding s' by (simp add: keys_from_cleanupWindows)
qed

lemma process_next_windows:
  "process_next rt s = (s', out) \<Longrightarrow> windows s' = windows s \<and> config s' = config s"
  by (auto simp: process_next_def split: list.splits)

lemma processWindows_windows:
  "processWindows rt now s = (s', out) \<Longrightarrow> windows s' = windows s \<and> config s' = config s"
  by (auto simp: processWindows_def dest: process_next_windows split: if_splits)

lemma agg_fire_config: "agg_fire rt e s = Some (s', out) \<Longrightarrow> config s' = config s"
  by (cases e)
     (auto simp: stop_def dest: addRecord_config processWindows_windows process_next_windows
        split: if_splits)

lemma keys_from_agg_fire:
  assumes "keys_from (now - windowSize (config s)) s" and "not_before now e"
    and "agg_fire rt e s = Some (s', out)"
  shows "keys_from (now - windowSize (config s)) s'"
proof (cases e)
  case (AddRecord t t' r)
  then have "now \<le> t" using assms(2) by (simp add: not_before_def)
  then have "now - windowSize (config s) \<le> t - windowSize (config s)" by simp
  moreover have "addRecord t t' r s = Some s'" using assms(3) AddRecord by auto
  ultimately show ?thesis using assms(1) by (blast intro: keys_from_addRecord)
next
  case (TimerFires t)
  then show ?thesis using assms(1,3)
    by (auto simp: keys_from_def dest: processWindows_windows split: if_splits)
next
  case PassResumes
  then show ?thesis using assms(1,3)
    by (auto simp: keys_from_def dest: process_next_windows split: if_splits)
next
  case Stop
  then show ?thesis using assms(3) by (auto simp: keys_from_def stop_def)
qed

lemma keys_from_agg_run:
  assumes "keys_from (now - windowSize (config s)) s" and "list_all (not_before now) es"
    and "agg_run rt es s = Some (s', out)"
  shows "keys_from (now - windowSize (config s)) s'"
  using assms
proof (induction es arbitrary: s out)
  case Nil
  then show ?case by simp
next
  case (Cons e es)
  from Cons.prems(3) obtain s1 out1 out2 where
    f: "agg_fire rt e s = Some (s1, out1)" and r: "agg_run rt es s1 = Some (s', out2)"
    by (auto split: option.splits)
  have c: "config s1 = config s" using f by (rule agg_fire_config)
  have "keys_from (now - windowSize (config s)) s1"
    using Cons.prems(1,2) f by (auto intro: keys_from_agg_fire)
  then show ?case using Cons.IH[of s1 out2] Cons.prems(2) r c by simp
qed

text \<open>
  C7. An eviction pass at time \<open>now\<close> removes from the map exactly the windows whose
  start time is below \<open>now - windowSize\<close> and leaves the others as they were. After
  it, whatever is done with the aggregator, as long as no record is added at a time
  earlier than \<open>now\<close>, the map has no window under the start time of an evicted one.
\<close>

theorem eviction_exact_and_final:
  "map fst (windows (cleanupWindows now s)) =
     filter (\<lambda>k. \<not> k < now - windowSize (config s)) (map fst (windows s))
   \<and> (\<forall>k. window_at (cleanupWindows now s) k =
          (if k < now - windowSize (config s) then None else window_at s k))
   \<and> (\<forall>k es s' out.
          k < now - windowSize (config s) \<and> list_all (not_before now) es
          \<and> agg_run rt es (cleanupWindows now s) = Some (s', out)
          \<longrightarrow> window_at s' k = None)"
proof -
  have "window_at s' k = None"
    if k: "k < now - windowSize (config s)" and es: "list_all (not_before now) es"
      and run: "agg_run rt es (cleanupWindows now s) = Some (s', out)" for k es s' out
  proof -
    have "keys_from (now - windowSize (config (cleanupWindows now s))) (cleanupWindows now s)"
      using keys_from_cleanupWindows_cutoff[of now s] by simp
    from keys_from_agg_run[OF this es run]
    have "\<forall>(t, a) \<in> set (windows s'). now - windowSize (config s) \<le> t"
      by (simp add: keys_from_def list_all_iff)
    then have "k \<notin> fst ` set (windows s')" using k by force
    then show ?thesis by (simp add: window_at_def map_of_eq_None_iff)
  qed
  then show ?thesis
    using cleanupWindows_keys window_at_cleanupWindows by blast
qed

lemma three_windows_fan_out:
  "fan_out 1700000000000 one_record (WindowAggregator_new 1699999999990 test_opts) =
     Some three_windows"
  by (simp add: fan_out_def WindowAggregator_new_def test_opts_def maxWindows_of_def
     upt_conv_Cons addRecord_round_def windowStart_of_def addToWindow_def three_windows_def)

theorem eviction_exact_and_final_witness:
  "map fst (windows (cleanupWindows 1700000000600 three_windows)) = [1700000000000]
   \<and> 1699999999500 < 1700000000600 - windowSize (config three_windows)
   \<and> list_all (not_before 1700000000600) later_events
   \<and> (\<exists>s' out. agg_run integer_runtime later_events
                      (cleanupWindows 1700000000600 three_windows) = Some (s', out)
          \<and> map fst (windows s') = [1700000000000, 1700000000500]
          \<and> window_at s' 1699999999500 = None)"
proof -
  have k: "1699999999500 < 1700000000600 - windowSize (config three_windows)"
    by (simp add: three_windows_def test_opts_def)
  have es: "list_all (not_before 1700000000600) later_events"
    by (simp add: later_events_def not_before_def)
  have keys: "map fst (windows (cleanupWindows 1700000000600 three_windows)) = [1700000000000]"
    by (simp add: cleanupWindows_def three_windows_def test_opts_def)
  obtain s' out where run: "agg_run integer_runtime later_events
       (cleanupWindows 1700000000600 three_windows) = Some (s', out)"
    and keys': "map fst (windows s') = [1700000000000, 1700000000500]"
    by (simp add: later_events_def cleanupWindows_def three_windows_def test_opts_def
        addRecord_def fan_out_def upt_conv_Cons addRecord_round_def windowStart_of_def
        addToWindow_def processWindows_def process_next_def windowsToProcess_def
        split_beta)
  from eviction_exact_and_final[of 1700000000600 three_windows integer_runtime]
  have "window_at s' 1699999999500 = None" using k es run by blast
  with run keys' have "\<exists>s' out. agg_run integer_runtime later_events
                      (cleanupWindows 1700000000600 three_windows) = Some (s', out)
          \<and> map fst (windows s') = [1700000000000, 1700000000500]
          \<and> window_at s' 1699999999500 = None"
    by (intro exI[of _ s'] exI[of _ out]) simp
  with keys k es show ?thesis by simp
qed

section \<open>Windows are never empty\<close>

lemma agg_inv_round: "agg_inv s \<Longrightarrow> agg_inv (addRecord_round now r s i)"
  by (simp add: addRecord_round_def Let_def agg_inv_addToWindow)

lemma agg_inv_rounds: "agg_inv s \<Longrightarrow> agg_inv (foldl (addRecord_round now r) s is)"
  by (induction "is" rule: rev_induct) (simp_all add: agg_inv_round)

lemma agg_inv_fan_out: "agg_inv s \<Longrightarrow> fan_out now r s = Some s1 \<Longrightarrow> agg_inv s1"
  by (auto simp: fan_out_def agg_inv_rounds split: jsnum.splits)

lemma agg_inv_cleanupWindows: "agg_inv s \<Longrightarrow> agg_inv (cleanupWindows now s)"
  by (auto simp: agg_inv_def cleanupWindows_def Let_def list_all_iff distinct_map_filter)

lemma agg_inv_addRecord:
  "agg_inv s \<Longrightarrow> addRecord now now' r s = Some s' \<Longrightarrow> agg_inv s'"
  by (auto simp: addRecord_def bind_eq_Some_conv agg_inv_cleanupWindows
      dest: agg_inv_fan_out split: if_splits)

lemma agg_inv_process_next:
  "agg_inv s \<Longrightarrow> process_next rt s = (s', out) \<Longrightarrow> agg_inv s'"
  by (auto simp: process_next_def agg_inv_def split: list.splits)

lemma agg_inv_pass_begins:
  assumes "agg_inv s"
  shows "agg_inv (s\<lparr>processingW := True, pending := windowsToProcess now s\<rparr>)"
proof -
  have "set (windowsToProcess now s) \<subseteq> set (windows s)"
    by (auto simp: windowsToProcess_def)
  then show ?thesis using assms by (auto simp: agg_inv_def list_all_iff)
qed

lemma agg_inv_processWindows:
  "agg_inv s \<Longrightarrow> processWindows rt now s = (s', out) \<Longrightarrow> agg_inv s'"
  by (auto simp: processWindows_def split: if_splits
      dest: agg_inv_process_next[OF agg_inv_pass_begins])

lemma agg_inv_stop: "agg_inv s \<Longrightarrow> agg_inv (stop s)"
  by (simp add: agg_inv_def stop_def)

lemma agg_inv_fire:
  assumes "agg_inv s" and "agg_fire rt e s = Some (s', out)"
  shows "agg_inv s'"
  using assms
  by (cases e)
     (auto split: if_splits
        dest: agg_inv_addRecord agg_inv_processWindows agg_inv_process_next
        simp: agg_inv_stop)

lemma agg_reachable_inv: "agg_reachable rt now0 opts s \<Longrightarrow> agg_inv s"
  by (induction rule: agg_reachable.induct) (auto intro: agg_inv_new agg_inv_fire)

lemma agg_reachable_config:
  "agg_reachable rt now0 opts s \<Longrightarrow>
     config s = opts
     \<and> maxWindows s = maxWindows_of (windowSize opts) (slidingInterval opts)"
proof (induction rule: agg_reachable.induct)
  case agg_init
  show ?case by (simp add: WindowAggregator_new_def)
next
  case (agg_step s e s' out)
  have c: "config s' = config s" using agg_step.hyps(2) by (rule agg_fire_config)
  have "maxWindows s' = maxWindows s"
  proof (cases e)
    case (AddRecord t t' r)
    then obtain s1 where s1: "fan_out t r s = Some s1"
      and s': "s' = (if t - lastCleanup s1 > windowSize (config s1)
                     then cleanupWindows t' s1 else s1)"
      using agg_step.hyps(2) by (auto simp: addRecord_def bind_eq_Some_conv)
    have round: "maxWindows (addRecord_round t r x i) = maxWindows x" for x i
      by (cases "map_of (windows x) (windowStart_of t x - int i * slidingInterval (config x))")
         (simp_all add: addRecord_round_def Let_def addToWindow_absent addToWindow_present)
    have "maxWindows (foldl (addRecord_round t r) s is) = maxWindows s" for "is"
      by (induction "is" rule: rev_induct) (simp_all add: round)
    then have "maxWindows s1 = maxWindows s"
      using s1 by (auto simp: fan_out_def split: jsnum.splits)
    then show ?thesis unfolding s' by (simp add: cleanupWindows_def Let_def)
  next
    case (TimerFires t)
    then show ?thesis using agg_step.hyps(2)
      by (auto simp: processWindows_def process_next_def split: if_splits list.splits)
  next
    case PassResumes
    then show ?thesis using agg_step.hyps(2)
      by (auto simp: process_next_def split: if_splits list.splits)
  next
    case Stop
    then show ?thesis using agg_step.hyps(2) by (auto simp: stop_def)
  qed
  then show ?case using agg_step.IH c by simp
qed

lemma agg_reachable_run:
  "agg_reachable rt now0 opts s \<Longrightarrow> agg_run rt es s = Some (s', out)
   \<Longrightarrow> agg_reachable rt now0 opts s'"
proof (induction es arbitrary: s out)
  case Nil
  then show ?case by simp
next
  case (Cons e es)
  from Cons.prems(2) obtain s1 out1 out2 where
    f: "agg_fire rt e s = Some (s1, out1)" and r: "agg_run rt es s1 = Some (s', out2)"
    by (auto split: option.splits)
  from Cons.prems(1) f have "agg_reachable rt now0 opts s1" by (rule agg_step)
  then show ?case using r by (rule Cons.IH)
qed

text \<open>Groups are made with their first record, so no group is empty.\<close>

lemma map_entry_nonempty:
  assumes "\<forall>(k, g) \<in> set gs. g \<noteq> []"
  shows "\<forall>(k, g) \<in> set (AList.map_entry key (\<lambda>g. g @ [r]) gs). g \<noteq> []"
  using assms by (induction gs) auto

lemma map_entry_last:
  "key \<notin> fst ` set gs \<Longrightarrow> AList.map_entry key f (gs @ [(key, v)]) = gs @ [(key, f v)]"
  by (induction gs) auto

lemma add_to_group_nonempty:
  assumes "\<forall>(k, g) \<in> set gs. g \<noteq> []"
  shows "\<forall>(k, g) \<in> set (add_to_group rt gs r). g \<noteq> []"
proof (cases "map_of gs (getGroupKey rt r)")
  case None
  then have "getGroupKey rt r \<notin> fst ` set gs" by (simp add: map_of_eq_None_iff)
  then show ?thesis using assms None
    by (simp add: add_to_group_def Let_def update_absent map_entry_last)
next
  case (Some g)
  then show ?thesis using map_entry_nonempty[OF assms]
    by (simp add: add_to_group_def Let_def)
qed

lemma group_records_nonempty: "\<forall>(k, g) \<in> set (group_records rt rs). g \<noteq> []"
  unfolding group_records_def
  by (induction rs rule: rev_induct) (simp_all add: add_to_group_nonempty)

lemma aggregate_groups_total:
  assumes "\<forall>(k, g) \<in> set gs. g \<noteq> []"
  shows "\<exists>res. aggregate_groups rt gs acc = Inr res"
  using assms
proof (induction gs arbitrary: acc)
  case Nil
  then show ?case by simp
next
  case (Cons kg gs)
  obtain k g where kg: "kg = (k, g)" by (cases kg)
  with Cons.prems have "g \<noteq> []" by simp
  then obtain agg where "calculateGroupAggregations rt g = Inr agg"
    by (cases g) (simp_all add: calculateGroupAggregations_def)
  then show ?case using Cons kg by simp
qed

lemma calculateAggregations_total: "\<exists>agg. calculateAggregations rt rs = Inr agg"
  unfolding calculateAggregations_def
  using group_records_nonempty by (rule aggregate_groups_total)

lemma processWindow_emits:
  assumes "records w \<noteq> []"
  shows "\<exists>r. processWindow rt t w = Inr (Some r) \<and> timestamp r = t
            \<and> count r = length (records w) \<and> 1 \<le> count r"
proof -
  obtain agg where "calculateAggregations rt (records w) = Inr agg"
    using calculateAggregations_total by blast
  then show ?thesis using assms
    by (cases "records w") (simp_all add: processWindow_def)
qed

lemma agg_inv_entry:
  assumes "agg_inv s" and "(t, a) \<in> set (windows s) \<union> set (pending s)"
  shows "a < length (heap s)" and "records (heap s ! a) \<noteq> []"
proof -
  show a: "a < length (heap s)" using assms by (auto simp: agg_inv_def list_all_iff)
  then have "heap s ! a \<in> set (heap s)" by simp
  then show "records (heap s ! a) \<noteq> []" using assms(1) by (auto simp: agg_inv_def list_all_iff)
qed

lemma process_next_counts:
  assumes "agg_inv s" and "process_next rt s = (s', out)"
  shows "\<forall>r \<in> set out. 1 \<le> count r"
proof (cases "pending s")
  case Nil
  then show ?thesis using assms(2) by (auto simp: process_next_def)
next
  case (Cons ta rest)
  obtain t a where ta: "ta = (t, a)" by (cases ta)
  have "(t, a) \<in> set (windows s) \<union> set (pending s)" using Cons ta by simp
  from agg_inv_entry(2)[OF assms(1) this]
  obtain r where "processWindow rt t (heap s ! a) = Inr (Some r)" "1 \<le> count r"
    using processWindow_emits by blast
  then show ?thesis using assms(2) Cons ta by (auto simp: process_next_def)
qed

lemma agg_fire_counts:
  assumes "agg_inv s" and "agg_fire rt e s = Some (s', out)"
  shows "\<forall>r \<in> set out. 1 \<le> count r"
proof (cases e)
  case (AddRecord t t' r)
  then show ?thesis using assms(2) by auto
next
  case (TimerFires t)
  show ?thesis
  proof (cases "processingW s")
    case True
    then show ?thesis using assms(2) TimerFires
      by (auto simp: processWindows_def split: if_splits)
  next
    case False
    then have "process_next rt (s\<lparr>processingW := True, pending := windowsToProcess t s\<rparr>) = (s', out)"
      using assms(2) TimerFires by (auto simp: processWindows_def split: if_splits)
    then show ?thesis using agg_inv_pass_begins[OF assms(1)] by (rule process_next_counts[rotated])
  qed
next
  case PassResumes
  then show ?thesis using assms by (auto split: if_splits dest: process_next_counts)
next
  case Stop
  then show ?thesis using assms(2) by auto
qed

text \<open>
  C10. In every state an aggregator reaches from its construction, whatever the order of
  added records, timer ticks, resumptions of a pass and stops: every window of the map
  holds at least one record; \<open>processWindow\<close>, called on an entry of the map or of the
  pass in flight, does not take its early return and emits a result with a count of at
  least one; and every result a step emits has a count of at least one.
\<close>

theorem windows_never_empty:
  assumes "agg_reachable rt now0 opts s"
  shows "(\<forall>k w. window_at s k = Some w \<longrightarrow> 1 \<le> length (records w))
       \<and> (\<forall>(t, a) \<in> set (windows s) \<union> set (pending s).
             processWindow rt t (heap s ! a) \<noteq> Inr None
             \<and> (\<exists>r. processWindow rt t (heap s ! a) = Inr (Some r) \<and> 1 \<le> count r))
       \<and> (\<forall>e s' out. agg_fire rt e s = Some (s', out) \<longrightarrow> (\<forall>r \<in> set out. 1 \<le> count r))"
proof -
  have inv: "agg_inv s" using assms by (rule agg_reachable_inv)
  have 1: "1 \<le> length (records w)" if "window_at s k = Some w" for k w
  proof -
    from that obtain a where a: "map_of (windows s) k = Some a" "w = heap s ! a"
      by (auto simp: window_at_def)
    then have "(k, a) \<in> set (windows s) \<union> set (pending s)" by (auto dest: map_of_SomeD)
    from agg_inv_entry(2)[OF inv this] show ?thesis using a(2) by (cases "records w") simp_all
  qed
  have 2: "processWindow rt t (heap s ! a) \<noteq> Inr None
             \<and> (\<exists>r. processWindow rt t (heap s ! a) = Inr (Some r) \<and> 1 \<le> count r)"
    if "(t, a) \<in> set (windows s) \<union> set (pending s)" for t a
    using processWindow_emits[OF agg_inv_entry(2)[OF inv that], of rt t] by auto
  have 3: "\<forall>r \<in> set out. 1 \<le> count r" if "agg_fire rt e s = Some (s', out)" for e s' out
    using inv that by (rule agg_fire_counts)
  from 1 2 3 show ?thesis by blast
qed

theorem windows_never_empty_witness:
  "agg_reachable integer_runtime 1699999999990 test_opts three_windows
   \<and> window_at three_windows 1699999999000 =
       Some \<lparr>startTime = 1699999999000, records = [one_record]\<rparr>
   \<and> (\<exists>s' out. agg_fire integer_runtime (TimerFires 1700000000500) three_windows = Some (s', out)
          \<and> map timestamp out = [1700000000000] \<and> map count out = [1]
          \<and> pending s' = [(1699999999500, 1), (1699999999000, 2)]
          \<and> list_all (\<lambda>r. 1 \<le> count r) out)"
proof -
  have "agg_fire integer_runtime (AddRecord 1700000000000 1700000000000 one_record)
          (WindowAggregator_new 1699999999990 test_opts) = Some (three_windows, [])"
    by (simp add: addRecord_def three_windows_fan_out) (simp add: three_windows_def test_opts_def)
  with agg_init have reach: "agg_reachable integer_runtime 1699999999990 test_opts three_windows"
    by (rule agg_step)
  have w: "window_at three_windows 1699999999000 =
       Some \<lparr>startTime = 1699999999000, records = [one_record]\<rparr>"
    by (simp add: window_at_def three_windows_def)
  obtain s' out where f: "agg_fire integer_runtime (TimerFires 1700000000500) three_windows = Some (s', out)"
    and o: "map timestamp out = [1700000000000]" "map count out = [1]"
      "pending s' = [(1699999999500, 1), (1699999999000, 2)]"
    by (simp add: three_windows_def test_opts_def processWindows_def process_next_def
        windowsToProcess_def processWindow_def one_record_def calculateAggregations_def
        group_records_def add_to_group_def getGroupKey_def calculateGroupAggregations_def
        split_beta)
  from windows_never_empty[OF reach] f have "\<forall>r \<in> set out. 1 \<le> count r" by blast
  then have "list_all (\<lambda>r. 1 \<le> count r) out" by (simp add: list_all_iff)
  with f o have "\<exists>s' out. agg_fire integer_runtime (TimerFires 1700000000500) three_windows = Some (s', out)
          \<and> map timestamp out = [1700000000000] \<and> map count out = [1]
          \<and> pending s' = [(1699999999500, 1), (1699999999000, 2)]
          \<and> list_all (\<lambda>r. 1 \<le> count r) out"
    by (intro exI[of _ s'] exI[of _ out]) simp
  with reach w show ?thesis by simp
qed

section \<open>Construction\<close>

text \<open>
  C8, as the code has it. Constructing an engine never fails: the constructors check
  nothing. Whatever the options, also with a \<open>batchSize\<close>, \<open>windowSize\<close> or
  \<open>slidingInterval\<close> that is zero or negative, the engine is made, and its processor and
  aggregator keep the options as they were given.
\<close>

theorem DataEngine_new_no_validation:
  "\<exists>e. DataEngine_new now opts = Inr e
      \<and> options (processor e) = opts \<and> config (aggregator e) = opts
      \<and> maxWindows (aggregator e) = maxWindows_of (windowSize opts) (slidingInterval opts)"
  by (simp add: DataEngine_new_def DataEngine_init_def StreamProcessor_new_def
      WindowAggregator_new_def)

text \<open>
  C8 as stated fails: with \<open>batchSize = 0\<close>, \<open>windowSize = -1000\<close> and
  \<open>slidingInterval = 0\<close> the constructor returns an engine.
\<close>

theorem DataEngine_new_invalid_opts:
  "DataEngine_new 1699999999990 invalid_opts = Inr (DataEngine_init 1699999999990 invalid_opts)
   \<and> batchSize invalid_opts \<le> 0 \<and> windowSize invalid_opts \<le> 0
   \<and> slidingInterval invalid_opts \<le> 0"
  by (simp add: DataEngine_new_def invalid_opts_def)


section \<open>A source without records\<close>

lemma flush_empty: "buffer p = [] \<Longrightarrow> flush clk p = Some p"
  by (subst flush.simps) simp

text \<open>
  C3 fails on the code. For a source that ends without a record and without an error,
  \<open>processFile\<close> on a new engine resolves: the stream ends, \<open>_flush\<close> finds the buffer
  empty, and the listener of \<open>end\<close> resolves the promise. No step of \<open>processFile\<close>
  counts the records.
\<close>

theorem processFile_empty_source_resolves:
  "processFile clk aclk empty_source (DataEngine_init now opts) =
     Some (Resolved, DataEngine_init now opts)"
  by (simp add: processFile_def empty_source_def on_end_def DataEngine_init_def
      StreamProcessor_new_def flush_empty pushed_since_def)


section \<open>The results log\<close>



lemma handle_keeps [simp]:
  "aggregator (handleAggregationResult e v) = aggregator e"
  "held (handleAggregationResult e v) = held e"
  "handed_out (handleAggregationResult e v) = handed_out e"
  "results (handleAggregationResult e v) = results e"
  by (simp_all add: handleAggregationResult_def)



lemma addToWindow_subscribed [simp]: "subscribed (addToWindow k r s) = subscribed s"
  by (cases "map_of (windows s) k") (simp_all add: addToWindow_absent addToWindow_present)

lemma rounds_subscribed [simp]:
  "subscribed (foldl (addRecord_round now r) s is) = subscribed s"
  by (induction "is" rule: rev_induct) (simp_all add: addRecord_round_def Let_def)














text \<open>
  The \<open>catch\<close> branch of \<open>processFile\<close> is a call of the engine's \<open>cleanup\<close>; the
  listeners of the error events call the closure, which leaves the results as they are.
\<close>

lemma processFile_setup_throws:
  "setup_throws src \<Longrightarrow> processFile clk aclk src e = Some (Rejected, cleanup e)"
  by (simp add: processFile_def)









end
